theory Spec2Isabelle
  imports Main "HOL-Library.List_Lexorder" "HOL-Library.Char_ord"
begin

section \<open>Data model of \<^verbatim>\<open>psycopg3/utils/queries.py\<close>\<close>

text \<open>
  Python \<^verbatim>\<open>bytes\<close> are lists of 8-bit characters. Python \<^verbatim>\<open>str\<close> is kept abstract as a
  type variable \<open>'s\<close>; the only operations the module performs on it are equality, the
  ordering used by \<^verbatim>\<open>sorted\<close> and the conversions of the session encoding.
\<close>

type_synonym bytes = string

text \<open>
  The encoding named by \<^verbatim>\<open>encoding\<close>: \<^verbatim>\<open>s.encode(encoding)\<close> and
  \<^verbatim>\<open>b.decode(encoding)\<close>. Both raise on input outside the codec, which is \<open>None\<close> here.
\<close>

record 's codec =
  encode :: "'s \<Rightarrow> bytes option"
  decode :: "bytes \<Rightarrow> 's option"

text \<open>
  Modelled from the spec: the enumeration \<^verbatim>\<open>pq.Format\<close> is imported by the module and is
  not part of the sources at hand; the specification gives it the two members Text and
  Binary, and the module builds a member from a truth value with \<^verbatim>\<open>Format(ph[-1:] == b"b")\<close>,
  so that \<^verbatim>\<open>Format(False)\<close> is Text and \<^verbatim>\<open>Format(True)\<close> is Binary.
\<close>

datatype Format = TEXT | BINARY

definition Format_of_bool :: "bool \<Rightarrow> Format" where
  "Format_of_bool b = (if b then BINARY else TEXT)"

definition TEXT_OID :: int where
  "TEXT_OID = 25"

definition UNKNOWN_OID :: int where
  "UNKNOWN_OID = 705"

text \<open>\<^verbatim>\<open>item: Union[int, str]\<close> and the result of \<^verbatim>\<open>type(item)\<close>.\<close>

datatype 's item = ItemInt int | ItemStr 's

datatype item_type = TypeInt | TypeStr

fun type_of_item :: "'s item \<Rightarrow> item_type" where
  "type_of_item (ItemInt n) = TypeInt"
| "type_of_item (ItemStr s) = TypeStr"

datatype 's QueryPart = QueryPart (pre: bytes) (item: "'s item") (format: Format)

text \<open>
  Every exception the module raises. The payload of a \<open>ProgrammingError\<close> or a
  \<open>TypeError\<close> is the data interpolated into its message.
\<close>

datatype 's message =
    IncompletePlaceholder 's
  | IncompletePercent
  | OnlySAndBAllowed 's
  | CannotBeMixed
  | DifferentFormats 's
  | PlaceholdersButParameters int int
  | ParameterMissing "'s list"

datatype type_message =
    QueryNotStrOrBytes
  | NamedRequireMapping
  | PositionalRequireSequence
  | NotSequenceOrMapping string

datatype 's error =
    ProgrammingError "'s message"
  | TypeError type_message
  | AssertionError
  | IndexError
  | AttributeError
  | UnicodeDecodeError
  | UnicodeEncodeError

section \<open>The placeholder pattern\<close>

text \<open>
  A match object of \<^verbatim>\<open>_re_placeholder\<close>: \<^verbatim>\<open>m.span(0)\<close>, \<^verbatim>\<open>m.group(0)\<close> and
  \<^verbatim>\<open>m.group(1)\<close>, the last being \<open>None\<close> when the named alternative did not take part.
\<close>

record Match =
  span0 :: "nat \<times> nat"
  group0 :: bytes
  group1 :: "bytes option"

definition newline :: char where
  "newline = CHR 0x0A"

text \<open>
  The pattern \<^verbatim>\<open>% (?: (?: \( ([^)]+) \) . ) | (?:.) )\<close> tried at the start of \<open>s\<close>; the
  result is \<^verbatim>\<open>(group(0), group(1))\<close>. The first alternative needs an opening bracket, a
  non-empty run of bytes other than the closing bracket, the closing bracket, and one more
  byte; the run cannot stop early, since the byte after it has to be the closing bracket.
  The second alternative is tried when the first fails. A dot matches every byte but the
  newline.
\<close>

fun re_placeholder_match :: "bytes \<Rightarrow> (bytes \<times> bytes option) option" where
  "re_placeholder_match (p # c # t) =
     (if p \<noteq> CHR ''%'' then None
      else
        let name = takeWhile (\<lambda>x. x \<noteq> CHR '')'') t;
            after = dropWhile (\<lambda>x. x \<noteq> CHR '')'') t
        in if c = CHR ''('' \<and> name \<noteq> [] \<and> 2 \<le> length after \<and> after ! 1 \<noteq> newline
           then Some (''%('' @ name @ '')'' @ [after ! 1], Some name)
           else if c \<noteq> newline then Some ([p, c], None)
           else None)"
| "re_placeholder_match s = None"

text \<open>
  \<^verbatim>\<open>_re_placeholder.finditer(query)\<close>: the matches from left to right, each search
  starting where the previous match ended. \<open>pos\<close> is the offset of \<open>s\<close> in the query.
\<close>

function finditer_from :: "nat \<Rightarrow> bytes \<Rightarrow> Match list" where
  "finditer_from pos s =
     (if s = [] then []
      else case re_placeholder_match s of
             None \<Rightarrow> finditer_from (pos + 1) (tl s)
           | Some (g0, g1) \<Rightarrow>
               \<lparr>span0 = (pos, pos + length g0), group0 = g0, group1 = g1\<rparr>
                 # finditer_from (pos + length g0) (drop (length g0) s))"
  by pat_completeness auto
termination
proof (relation "measure (\<lambda>(pos, s). length s)")
  show "wf (measure (\<lambda>(pos, s). length s))"
    by simp
next
  fix pos :: nat and s :: bytes
  assume "s \<noteq> []"
  then show "((pos + 1, tl s), (pos, s)) \<in> measure (\<lambda>(pos, s). length s)"
    by (cases s) simp_all
next
  fix pos :: nat and s :: bytes and x2 :: "bytes \<times> bytes option" and g0 :: bytes
    and g1 :: "bytes option"
  assume ne: "s \<noteq> []" and m: "re_placeholder_match s = Some x2" and x2: "(g0, g1) = x2"
  have "0 < length g0"
    using m x2 by (cases s rule: re_placeholder_match.cases) (auto simp: Let_def split: if_splits)
  with ne show "((pos + length g0, drop (length g0) s), (pos, s)) \<in> measure (\<lambda>(pos, s). length s)"
    by simp
qed

declare finditer_from.simps [simp del]

definition finditer :: "bytes \<Rightarrow> Match list" where
  "finditer query = finditer_from 0 query"


section \<open>\<^verbatim>\<open>_split_query\<close>\<close>

text \<open>The slice \<^verbatim>\<open>query[a:b]\<close> for offsets from the start; it is empty when \<open>b \<le> a\<close>.\<close>

definition slice :: "bytes \<Rightarrow> nat \<Rightarrow> nat \<Rightarrow> bytes" where
  "slice query a b = take (b - a) (drop a query)"

text \<open>
  The first loop: one pair \<^verbatim>\<open>(pre, m)\<close> for each match, \<open>pre\<close> being the text between the
  previous match and this one. It returns the pairs and the final \<^verbatim>\<open>cur\<close>.
\<close>

fun pairs_loop ::
  "bytes \<Rightarrow> nat \<Rightarrow> Match list \<Rightarrow> (bytes \<times> Match option) list
     \<Rightarrow> (bytes \<times> Match option) list \<times> nat" where
  "pairs_loop query cur [] parts = (parts, cur)"
| "pairs_loop query cur (m # ms) parts =
     pairs_loop query (snd (span0 m)) ms (parts @ [(slice query cur (fst (span0 m)), Some m)])"

text \<open>The pairs with the closing pair, whose match is \<open>None\<close>.\<close>

definition split_pairs :: "bytes \<Rightarrow> (bytes \<times> Match option) list" where
  "split_pairs query =
     (let ms = finditer query;
          (parts, cur) = pairs_loop query 0 ms []
      in if ms = [] then parts @ [(query, None)]
         else parts @ [(drop cur query, None)])"

text \<open>
  \<^verbatim>\<open>bytes.split()[0]\<close>: the first run of bytes that are not ASCII whitespace; \<open>None\<close>
  stands for the IndexError on an empty split.
\<close>

definition is_space :: "char \<Rightarrow> bool" where
  "is_space c = (c \<in> {CHR '' '', CHR 0x09, CHR 0x0A, CHR 0x0B, CHR 0x0C, CHR 0x0D})"

definition split_first :: "bytes \<Rightarrow> bytes option" where
  "split_first s =
     (let t = dropWhile is_space s
      in if t = [] then None else Some (takeWhile (\<lambda>c. \<not> is_space c) t))"

text \<open>\<^verbatim>\<open>ph[-1:]\<close>, and \<^verbatim>\<open>x in b"bs"\<close>, which holds for the four substrings of \<^verbatim>\<open>b"bs"\<close>.\<close>

definition last_slice :: "bytes \<Rightarrow> bytes" where
  "last_slice ph = (if ph = [] then [] else [last ph])"

definition in_bs :: "bytes \<Rightarrow> bool" where
  "in_bs x = (x = [] \<or> x = ''b'' \<or> x = ''s'' \<or> x = ''bs'')"

text \<open>\<^verbatim>\<open>item = i if m.group(1) is None else m.group(1).decode(encoding)\<close>\<close>

definition placeholder_item :: "'s codec \<Rightarrow> nat \<Rightarrow> Match \<Rightarrow> 's error + 's item" where
  "placeholder_item encoding i m =
     (case group1 m of
        None \<Rightarrow> Inr (ItemInt (int i))
      | Some name \<Rightarrow>
          (case decode encoding name of
             None \<Rightarrow> Inl UnicodeDecodeError
           | Some t \<Rightarrow> Inr (ItemStr t)))"

text \<open>The three syntax checks on a placeholder that is not \<^verbatim>\<open>%%\<close>; \<open>None\<close> when it passes.\<close>

definition placeholder_error :: "'s codec \<Rightarrow> bytes \<Rightarrow> Match \<Rightarrow> 's error option" where
  "placeholder_error encoding query m =
     (let ph = group0 m
      in if ph = ''%('' then
           (case split_first (drop (fst (span0 m)) query) of
              None \<Rightarrow> Some IndexError
            | Some w \<Rightarrow>
                (case decode encoding w of
                   None \<Rightarrow> Some UnicodeDecodeError
                 | Some t \<Rightarrow> Some (ProgrammingError (IncompletePlaceholder t))))
         else if ph = ''% '' then Some (ProgrammingError IncompletePercent)
         else if \<not> in_bs (last_slice ph) then
           (case decode encoding ph of
              None \<Rightarrow> Some UnicodeDecodeError
            | Some t \<Rightarrow> Some (ProgrammingError (OnlySAndBAllowed t)))
         else None)"

text \<open>\<^verbatim>\<open>del parts[i]\<close>\<close>

definition del_at :: "nat \<Rightarrow> 'a list \<Rightarrow> 'a list" where
  "del_at i xs = take i xs @ drop (Suc i) xs"

text \<open>
  The second loop, \<^verbatim>\<open>while i < len(parts)\<close>, on the list it mutates: a \<^verbatim>\<open>%%\<close> is merged
  into the next pair and deleted without advancing \<open>i\<close>; any other placeholder is checked
  and appended to \<open>rv\<close>.
\<close>

function split_loop ::
  "'s codec \<Rightarrow> bytes \<Rightarrow> (bytes \<times> Match option) list \<Rightarrow> nat \<Rightarrow> item_type option
     \<Rightarrow> 's QueryPart list \<Rightarrow> 's error + 's QueryPart list" where
  "split_loop encoding query parts i phtype rv =
     (if \<not> i < length parts then Inr rv
      else case snd (parts ! i) of
        None \<Rightarrow> Inr (rv @ [QueryPart (fst (parts ! i)) (ItemInt 0) TEXT])
      | Some m \<Rightarrow>
          if group0 m = ''%%'' then
            (if \<not> i + 1 < length parts then Inl IndexError
             else split_loop encoding query
                    (del_at i (parts[i + 1 :=
                       (fst (parts ! i) @ ''%'' @ fst (parts ! (i + 1)), snd (parts ! (i + 1)))]))
                    i phtype rv)
          else
            (case placeholder_error encoding query m of
               Some e \<Rightarrow> Inl e
             | None \<Rightarrow>
                 (case placeholder_item encoding i m of
                    Inl e \<Rightarrow> Inl e
                  | Inr it \<Rightarrow>
                      if phtype \<noteq> None \<and> phtype \<noteq> Some (type_of_item it)
                      then Inl (ProgrammingError CannotBeMixed)
                      else split_loop encoding query parts (i + 1) (Some (type_of_item it))
                             (rv @ [QueryPart (fst (parts ! i)) it
                                      (Format_of_bool (last_slice (group0 m) = ''b''))]))))"
  by pat_completeness auto
termination
  by (relation "measure (\<lambda>(encoding, query, parts, i, phtype, rv). length parts - i)")
     (auto simp: del_at_def)

declare split_loop.simps [simp del]

definition split_query :: "'s codec \<Rightarrow> bytes \<Rightarrow> 's error + 's QueryPart list" where
  "split_query encoding query = split_loop encoding query (split_pairs query) 0 None []"


section \<open>\<^verbatim>\<open>_query2pg\<close>\<close>

text \<open>\<^verbatim>\<open>b"%d" % n\<close>: the decimal digits of an integer.\<close>

definition digit :: "nat \<Rightarrow> char" where
  "digit d = ''0123456789'' ! d"

fun decimal :: "nat \<Rightarrow> bytes" where
  "decimal n =
     (if n < 10 then [digit n]
      else decimal (n div 10) @ [digit (n mod 10)])"

declare decimal.simps [simp del]

definition format_d :: "int \<Rightarrow> bytes" where
  "format_d n = (if n < 0 then CHR ''-'' # decimal (nat (- n)) else decimal (nat n))"

text \<open>
  The query argument of the module: text, bytes, or a \<^verbatim>\<open>sql.Composable\<close>, an object of
  another module of which only the method \<^verbatim>\<open>as_string(transformer)\<close> is called.
\<close>

datatype ('s, 't) Composable = Composable (as_string: "'t \<Rightarrow> 's")

datatype ('s, 't) Query = QStr 's | QBytes bytes | QComposable "('s, 't) Composable"

text \<open>
  The loop of the positional branch over \<^verbatim>\<open>parts[:-1]\<close>, with the lists \<^verbatim>\<open>chunks\<close> and
  \<^verbatim>\<open>formats\<close> it appends to.
\<close>

fun positional_loop ::
  "'s QueryPart list \<Rightarrow> bytes list \<Rightarrow> Format list \<Rightarrow> 's error + (bytes list \<times> Format list)" where
  "positional_loop [] chunks fmts = Inr (chunks, fmts)"
| "positional_loop (part # rest) chunks fmts =
     (case item part of
        ItemStr name \<Rightarrow> Inl AssertionError
      | ItemInt n \<Rightarrow>
          positional_loop rest (chunks @ [pre part, ''$'' @ format_d (n + 1)])
            (fmts @ [format part]))"

text \<open>
  The loop of the named branch. The dictionary \<^verbatim>\<open>seen\<close> is an association list in
  insertion order; a key is only ever added when it is not yet there, so its length is
  \<^verbatim>\<open>len(seen)\<close>.
\<close>

fun named_loop ::
  "'s QueryPart list \<Rightarrow> ('s \<times> bytes \<times> Format) list \<Rightarrow> 's list \<Rightarrow> bytes list \<Rightarrow> Format list
     \<Rightarrow> 's error + (bytes list \<times> Format list \<times> 's list)" where
  "named_loop [] seen ord chunks fmts = Inr (chunks, fmts, ord)"
| "named_loop (part # rest) seen ord chunks fmts =
     (case item part of
        ItemInt n \<Rightarrow> Inl AssertionError
      | ItemStr name \<Rightarrow>
          (case map_of seen name of
             None \<Rightarrow>
               (let ph = ''$'' @ format_d (int (length seen) + 1)
                in named_loop rest (seen @ [(name, ph, format part)]) (ord @ [name])
                     (chunks @ [pre part, ph]) (fmts @ [format part]))
           | Some (ph, f) \<Rightarrow>
               if f \<noteq> format part then Inl (ProgrammingError (DifferentFormats name))
               else named_loop rest seen ord (chunks @ [pre part, ph]) fmts))"

text \<open>The query as bytes: text is encoded, bytes are kept, anything else is a TypeError.\<close>

definition query_bytes :: "'s codec \<Rightarrow> ('s, 't) Query \<Rightarrow> 's error + bytes" where
  "query_bytes encoding query =
     (case query of
        QStr s \<Rightarrow> (case encode encoding s of None \<Rightarrow> Inl UnicodeEncodeError | Some b \<Rightarrow> Inr b)
      | QBytes b \<Rightarrow> Inr b
      | QComposable c \<Rightarrow> Inl (TypeError QueryNotStrOrBytes))"

text \<open>The rewriting of the parts: the branches on the type of \<^verbatim>\<open>parts[0].item\<close>.\<close>

definition rewrite_parts ::
  "'s QueryPart list
     \<Rightarrow> 's error + (bytes \<times> Format list \<times> 's list option \<times> 's QueryPart list)" where
  "rewrite_parts parts =
     (case parts of
        [] \<Rightarrow> Inl IndexError
      | p0 # ps \<Rightarrow>
          (case item p0 of
             ItemInt n0 \<Rightarrow>
               (case positional_loop (butlast parts) [] [] of
                  Inl e \<Rightarrow> Inl e
                | Inr (chunks, fmts) \<Rightarrow>
                    Inr (concat (chunks @ [pre (last parts)]), fmts, None, parts))
           | ItemStr s0 \<Rightarrow>
               (case named_loop (butlast parts) [] [] [] [] of
                  Inl e \<Rightarrow> Inl e
                | Inr (chunks, fmts, ord) \<Rightarrow>
                    Inr (concat (chunks @ [pre (last parts)]), fmts, Some ord, parts))))"

definition query2pg ::
  "('s, 't) Query \<Rightarrow> 's codec
     \<Rightarrow> 's error + (bytes \<times> Format list \<times> 's list option \<times> 's QueryPart list)" where
  "query2pg query encoding =
     (case query_bytes encoding query of
        Inl e \<Rightarrow> Inl e
      | Inr q \<Rightarrow>
          (case split_query encoding q of
             Inl e \<Rightarrow> Inl e
           | Inr parts \<Rightarrow> rewrite_parts parts))"

section \<open>\<^verbatim>\<open>_validate_and_reorder_params\<close>\<close>

text \<open>
  The parameters argument. A value is \<open>'v option\<close>, \<open>None\<close> being Python's \<^verbatim>\<open>None\<close>. A
  mapping is an association list read with \<open>map_of\<close>. Text and bytes are sequences that
  the function excludes by name; \<open>OtherParams\<close> carries the name of any other type.
\<close>

datatype ('s, 'v) Params =
    Sequence "'v option list"
  | Mapping "('s \<times> 'v option) list"
  | StrParams
  | BytesParams
  | OtherParams string

text \<open>\<^verbatim>\<open>[vars[item] for item in names]\<close>; \<open>None\<close> is the KeyError of a missing key.\<close>

fun lookup_all :: "('s \<times> 'v option) list \<Rightarrow> 's list \<Rightarrow> 'v option list option" where
  "lookup_all m [] = Some []"
| "lookup_all m (n # ns) =
     (case map_of m n of
        None \<Rightarrow> None
      | Some v \<Rightarrow> (case lookup_all m ns of None \<Rightarrow> None | Some vs \<Rightarrow> Some (v # vs)))"

text \<open>\<^verbatim>\<open>order or ()\<close>\<close>

definition order_or_empty :: "'s list option \<Rightarrow> 's list" where
  "order_or_empty ord = (case ord of None \<Rightarrow> [] | Some names \<Rightarrow> names)"

definition validate_and_reorder_params ::
  "'s QueryPart list \<Rightarrow> ('s::linorder, 'v) Params \<Rightarrow> 's list option
     \<Rightarrow> 's error + 'v option list" where
  "validate_and_reorder_params parts vars ord =
     (case vars of
        Sequence vs \<Rightarrow>
          if int (length vs) \<noteq> int (length parts) - 1 then
            Inl (ProgrammingError
                  (PlaceholdersButParameters (int (length parts) - 1) (int (length vs))))
          else if vs \<noteq> [] then
            (case parts of
               [] \<Rightarrow> Inl IndexError
             | p0 # ps \<Rightarrow>
                 if type_of_item (item p0) \<noteq> TypeInt then Inl (TypeError NamedRequireMapping)
                 else Inr vs)
          else Inr vs
      | Mapping m \<Rightarrow>
          if m \<noteq> [] \<and> 1 < length parts \<and> type_of_item (item (parts ! 0)) \<noteq> TypeStr then
            Inl (TypeError PositionalRequireSequence)
          else
            (case lookup_all m (order_or_empty ord) of
               Some vs \<Rightarrow> Inr vs
             | None \<Rightarrow>
                 Inl (ProgrammingError
                       (ParameterMissing
                          (sort (filter (\<lambda>i. map_of m i = None) (order_or_empty ord))))))
      | StrParams \<Rightarrow> Inl (TypeError (NotSequenceOrMapping ''str''))
      | BytesParams \<Rightarrow> Inl (TypeError (NotSequenceOrMapping ''bytes''))
      | OtherParams name \<Rightarrow> Inl (TypeError (NotSequenceOrMapping name)))"


section \<open>\<^verbatim>\<open>PostgresQuery\<close>\<close>

text \<open>
  The transformer is an object of another module. The class reads its \<^verbatim>\<open>encoding\<close> and
  calls \<^verbatim>\<open>get_dumper(param, format)\<close>, whose result has a method \<^verbatim>\<open>dump\<close> and an
  attribute \<^verbatim>\<open>oid\<close>. These collaborators are taken as total functions.
\<close>

record 'v Dumper =
  dumper_dump :: "'v \<Rightarrow> bytes"
  dumper_oid :: int

record ('s, 'v) Transformer =
  encoding :: "'s codec"
  get_dumper :: "'v \<Rightarrow> Format \<Rightarrow> 'v Dumper"

text \<open>
  The attributes of a \<^verbatim>\<open>PostgresQuery\<close>. \<^verbatim>\<open>_parts\<close> is declared in the class body without
  a value and \<^verbatim>\<open>__init__\<close> does not assign it: \<open>None\<close> in \<open>priv_parts\<close> is the attribute
  not being set, and reading it then is an AttributeError.
\<close>

record ('s, 'v) PostgresQuery =
  query :: bytes
  params :: "bytes option list option"
  types :: "int list option"
  formats :: "Format list option"
  priv_order :: "'s list option"
  priv_parts :: "'s QueryPart list option"

definition init :: "('s, 'v) PostgresQuery" where
  "init = \<lparr>query = [], params = None, types = None, formats = None,
           priv_order = None, priv_parts = None\<rparr>"

text \<open>
  The loop of the first \<^verbatim>\<open>dump\<close>, over \<^verbatim>\<open>params[i:]\<close>: it appends to \<^verbatim>\<open>self.params\<close> and
  \<^verbatim>\<open>self.types\<close>. The lists built so far are returned with the exception when
  \<^verbatim>\<open>self.formats[i]\<close> is out of range, since the attributes keep them.
\<close>

fun dump_with_types ::
  "('s, 'v) Transformer \<Rightarrow> Format list \<Rightarrow> 'v option list \<Rightarrow> nat \<Rightarrow> bytes option list
     \<Rightarrow> int list \<Rightarrow> 's error option \<times> bytes option list \<times> int list" where
  "dump_with_types tx fmts [] i ps ts = (None, ps, ts)"
| "dump_with_types tx fmts (None # rest) i ps ts =
     dump_with_types tx fmts rest (i + 1) (ps @ [None]) (ts @ [UNKNOWN_OID])"
| "dump_with_types tx fmts (Some param # rest) i ps ts =
     (if \<not> i < length fmts then (Some IndexError, ps, ts)
      else
        let dumper = get_dumper tx param (fmts ! i)
        in dump_with_types tx fmts rest (i + 1) (ps @ [Some (dumper_dump dumper param)])
             (ts @ [dumper_oid dumper]))"

text \<open>The loop of a later \<^verbatim>\<open>dump\<close>: it appends to \<^verbatim>\<open>self.params\<close> only.\<close>

fun dump_without_types ::
  "('s, 'v) Transformer \<Rightarrow> Format list \<Rightarrow> 'v option list \<Rightarrow> nat \<Rightarrow> bytes option list
     \<Rightarrow> 's error option \<times> bytes option list" where
  "dump_without_types tx fmts [] i ps = (None, ps)"
| "dump_without_types tx fmts (None # rest) i ps =
     dump_without_types tx fmts rest (i + 1) (ps @ [None])"
| "dump_without_types tx fmts (Some param # rest) i ps =
     (if \<not> i < length fmts then (Some IndexError, ps)
      else
        let dumper = get_dumper tx param (fmts ! i)
        in dump_without_types tx fmts rest (i + 1) (ps @ [Some (dumper_dump dumper param)]))"

text \<open>
  \<^verbatim>\<open>PostgresQuery.dump\<close>. A method returns the exception it raised, if any, and the object
  as the call left it.
\<close>

definition dump ::
  "('s::linorder, 'v) Transformer \<Rightarrow> ('s, 'v) Params option \<Rightarrow> ('s, 'v) PostgresQuery
     \<Rightarrow> 's error option \<times> ('s, 'v) PostgresQuery" where
  "dump tx vars self =
     (case vars of
        None \<Rightarrow> (None, self\<lparr>params := None, types := None\<rparr>)
      | Some vs \<Rightarrow>
          (case priv_parts self of
             None \<Rightarrow> (Some AttributeError, self)
           | Some parts \<Rightarrow>
               (case validate_and_reorder_params parts vs (priv_order self) of
                  Inl e \<Rightarrow> (Some e, self)
                | Inr ps \<Rightarrow>
                    (case formats self of
                       None \<Rightarrow> (Some AssertionError, self\<lparr>params := Some []\<rparr>)
                     | Some fmts \<Rightarrow>
                         if types self = None then
                           (case dump_with_types tx fmts ps 0 [] [] of
                              (exn, dumped, oids) \<Rightarrow>
                                (exn, self\<lparr>params := Some dumped, types := Some oids\<rparr>))
                         else
                           (case dump_without_types tx fmts ps 0 [] of
                              (exn, dumped) \<Rightarrow> (exn, self\<lparr>params := Some dumped\<rparr>))))))"

text \<open>\<^verbatim>\<open>PostgresQuery.convert\<close>\<close>

definition convert ::
  "('s::linorder, 'v) Transformer \<Rightarrow> ('s, ('s, 'v) Transformer) Query \<Rightarrow> ('s, 'v) Params option
     \<Rightarrow> ('s, 'v) PostgresQuery \<Rightarrow> 's error option \<times> ('s, 'v) PostgresQuery" where
  "convert tx query0 vars self =
     (let query1 = (case query0 of QComposable c \<Rightarrow> QStr (as_string c tx) | _ \<Rightarrow> query0)
      in if vars \<noteq> None then
           (case query2pg query1 (encoding tx) of
              Inl e \<Rightarrow> (Some e, self)
            | Inr (q, fmts, ord, parts) \<Rightarrow>
                dump tx vars
                  (self\<lparr>query := q, formats := Some fmts, priv_order := ord,
                        priv_parts := Some parts\<rparr>))
         else
           (case query1 of
              QStr s \<Rightarrow>
                (case encode (encoding tx) s of
                   None \<Rightarrow> (Some UnicodeEncodeError, self)
                 | Some b \<Rightarrow>
                     dump tx vars (self\<lparr>query := b, formats := None, priv_order := None\<rparr>))
            | QBytes b \<Rightarrow>
                dump tx vars (self\<lparr>query := b, formats := None, priv_order := None\<rparr>)
            | QComposable c \<Rightarrow>
                dump tx vars (self\<lparr>formats := None, priv_order := None\<rparr>)))"

text \<open>
  The last branch is never taken: \<open>query1\<close> is text or bytes once a composable has been
  rendered. (The source would store the object itself in \<^verbatim>\<open>self.query\<close> there.)
\<close>

section \<open>Collaborators for concrete runs\<close>

text \<open>
  The codec \<^verbatim>\<open>"ascii"\<close>, the default encoding of \<^verbatim>\<open>_split_query\<close>, on text whose code
  points are bytes: a byte with the top bit set is outside it.
\<close>

definition ascii :: "string codec" where
  "ascii = \<lparr>encode = (\<lambda>s. if list_ex digit7 s then None else Some s),
            decode = (\<lambda>b. if list_ex digit7 b then None else Some b)\<rparr>"

text \<open>
  A transformer for integer parameters: the ASCII codec, and one dumper that writes the decimal
  digits and reports the type identifier 23.
\<close>

definition int_transformer :: "(string, int) Transformer" where
  "int_transformer =
     \<lparr>encoding = ascii, get_dumper = (\<lambda>v f. \<lparr>dumper_dump = format_d, dumper_oid = 23\<rparr>)\<rparr>"

text \<open>
  The session that \<^verbatim>\<open>convert(b"select %s", (1,))\<close> leaves under this transformer, by lemma
  \<open>convert_prepared\<close>.
\<close>

definition prepared :: "(string, int) PostgresQuery" where
  "prepared =
     \<lparr>query = ''select $1'', params = Some [Some ''1''], types = Some [23],
      formats = Some [TEXT], priv_order = None,
      priv_parts = Some [QueryPart ''select '' (ItemInt 0) TEXT, QueryPart [] (ItemInt 0) TEXT]\<rparr>"

section \<open>Definitions for the statements and the proofs\<close>

text \<open>
  The list the first loop of \<^verbatim>\<open>_split_query\<close> builds: a pair with a match for every token, and the
  closing pair with the text after the last match.
\<close>

definition closed_pairs :: "(bytes \<times> Match) list \<Rightarrow> bytes \<Rightarrow> (bytes \<times> Match option) list" where
  "closed_pairs xs t = map (\<lambda>x. (fst x, Some (snd x))) xs @ [(t, None)]"

text \<open>
  The second loop of \<^verbatim>\<open>_split_query\<close> as a function of the pairs from index \<open>i\<close> on, \<open>xs\<close> with the
  closing text \<open>t\<close>. The loop never reads below \<open>i\<close>; lemma \<open>split_loop_rest\<close> shows that the
  two agree.
\<close>

fun split_rest ::
  "'s codec \<Rightarrow> bytes \<Rightarrow> (bytes \<times> Match) list \<Rightarrow> bytes \<Rightarrow> nat \<Rightarrow> item_type option
     \<Rightarrow> 's QueryPart list \<Rightarrow> 's error + 's QueryPart list" where
  "split_rest enc q [] t i phtype rv = Inr (rv @ [QueryPart t (ItemInt 0) TEXT])"
| "split_rest enc q ((lit, m) # xs) t i phtype rv =
     (if group0 m = ''%%'' then
        (case xs of
           [] \<Rightarrow> split_rest enc q [] (lit @ ''%'' @ t) i phtype rv
         | x # xs' \<Rightarrow> split_rest enc q ((lit @ ''%'' @ fst x, snd x) # xs') t i phtype rv)
      else
        (case placeholder_error enc q m of
           Some e \<Rightarrow> Inl e
         | None \<Rightarrow>
             (case placeholder_item enc i m of
                Inl e \<Rightarrow> Inl e
              | Inr it \<Rightarrow>
                  if phtype \<noteq> None \<and> phtype \<noteq> Some (type_of_item it)
                  then Inl (ProgrammingError CannotBeMixed)
                  else split_rest enc q xs t (i + 1) (Some (type_of_item it))
                         (rv @ [QueryPart lit it
                                  (Format_of_bool (last_slice (group0 m) = ''b''))]))))"

declare split_rest.simps(2) [simp del]

text \<open>
  The pairs of the first loop, without the accumulator.
\<close>

fun tokens_from :: "bytes \<Rightarrow> nat \<Rightarrow> Match list \<Rightarrow> (bytes \<times> Match) list" where
  "tokens_from q cur [] = []"
| "tokens_from q cur (m # ms) = (slice q cur (fst (span0 m)), m) # tokens_from q (snd (span0 m)) ms"

text \<open>
  The value of \<^verbatim>\<open>cur\<close> after the first loop.
\<close>

fun final_cur :: "nat \<Rightarrow> Match list \<Rightarrow> nat" where
  "final_cur cur [] = cur"
| "final_cur cur (m # ms) = final_cur (snd (span0 m)) ms"

text \<open>
  The tokens of a query and the text after its last match.
\<close>

definition tokens :: "bytes \<Rightarrow> (bytes \<times> Match) list" where
  "tokens q = tokens_from q 0 (finditer q)"

definition trailer :: "bytes \<Rightarrow> bytes" where
  "trailer q = drop (final_cur 0 (finditer q)) q"

text \<open>
  The type of the item a match gives: an index without a name, a name otherwise.
\<close>

definition match_type :: "Match \<Rightarrow> item_type" where
  "match_type m = (if group1 m = None then TypeInt else TypeStr)"

text \<open>
  A match other than \<^verbatim>\<open>%%\<close>.
\<close>

definition not_escape :: "Match \<Rightarrow> bool" where
  "not_escape m = (group0 m \<noteq> ''%%'')"

text \<open>
  The number of tokens that are not \<^verbatim>\<open>%%\<close>.
\<close>

definition slots :: "(bytes \<times> Match) list \<Rightarrow> nat" where
  "slots xs = length (filter not_escape (map snd xs))"

text \<open>
  What a successful run of the second loop from index \<open>i\<close> has added to \<open>rv\<close>: \<open>n\<close> parts and the
  closing part; an integer item is the index of its part; the items have one type, which is
  \<open>ph\<close> when \<open>ph\<close> is set.
\<close>

definition appended ::
  "nat \<Rightarrow> item_type option \<Rightarrow> 's QueryPart list \<Rightarrow> nat \<Rightarrow> 's QueryPart list \<Rightarrow> bool" where
  "appended i ph rv n out =
     (\<exists>mid t'. out = rv @ mid @ [QueryPart t' (ItemInt 0) TEXT]
        \<and> length mid = n
        \<and> (\<forall>k<length mid. \<forall>j. item (mid ! k) = ItemInt j \<longrightarrow> j = int (i + k))
        \<and> (\<forall>p\<in>set mid. \<forall>T. ph = Some T \<longrightarrow> type_of_item (item p) = T)
        \<and> (\<forall>p\<in>set mid. \<forall>p'\<in>set mid. type_of_item (item p) = type_of_item (item p')))"

text \<open>
  A match that ends in one of the two format characters.
\<close>

definition has_format_char :: "Match \<Rightarrow> bool" where
  "has_format_char m = (group0 m \<noteq> [] \<and> last (group0 m) \<in> {CHR ''s'', CHR ''b''})"

text \<open>
  The placeholders of a query: its matches other than \<^verbatim>\<open>%%\<close>, in textual order.
\<close>

definition placeholders :: "bytes \<Rightarrow> Match list" where
  "placeholders q = filter not_escape (finditer q)"

text \<open>
  A placeholder the second loop accepts: it ends in a format character, and its name, if it has
  one, is in the codec.
\<close>

definition accepted :: "'s codec \<Rightarrow> Match \<Rightarrow> bool" where
  "accepted enc m =
     (has_format_char m \<and> (case group1 m of None \<Rightarrow> True | Some name \<Rightarrow> decode enc name \<noteq> None))"

text \<open>
  The format a match asks for.
\<close>

definition match_format :: "Match \<Rightarrow> Format" where
  "match_format m = Format_of_bool (last_slice (group0 m) = ''b'')"

text \<open>
  The destination marker of the slot with index \<open>k\<close>, counted from zero: \<^verbatim>\<open>$1\<close> for slot 0.
\<close>

definition marker :: "nat \<Rightarrow> bytes" where
  "marker k = ''$'' @ format_d (int k + 1)"

text \<open>
  A match moved \<open>k\<close> bytes to the right.
\<close>

definition shift :: "nat \<Rightarrow> Match \<Rightarrow> Match" where
  "shift k m = m\<lparr>span0 := (fst (span0 m) + k, snd (span0 m) + k)\<rparr>"

text \<open>
  A function applied to the parts of a successful parse; an error is kept.
\<close>

fun on_parts :: "('a \<Rightarrow> 'b) \<Rightarrow> 'e + 'a \<Rightarrow> 'e + 'b" where
  "on_parts f (Inl e) = Inl e"
| "on_parts f (Inr parts) = Inr (f parts)"

text \<open>
  Literal text put in front of the first part.
\<close>

definition prepend :: "bytes \<Rightarrow> 's QueryPart list \<Rightarrow> 's QueryPart list" where
  "prepend lit parts =
     (case parts of [] \<Rightarrow> [] | p # ps \<Rightarrow> QueryPart (lit @ pre p) (item p) (format p) # ps)"

text \<open>
  The serialized parameters and the type identifiers that \<^verbatim>\<open>dump\<close> computes from the reconciled
  parameters \<open>ps\<close> and the formats.
\<close>

definition dumped :: "('s, 'v) Transformer \<Rightarrow> Format list \<Rightarrow> 'v option list \<Rightarrow> bytes option list" where
  "dumped tx fmts ps =
     map (\<lambda>(p, f). case p of None \<Rightarrow> None
                     | Some v \<Rightarrow> Some (dumper_dump (get_dumper tx v f) v)) (zip ps fmts)"

definition dumped_oids :: "('s, 'v) Transformer \<Rightarrow> Format list \<Rightarrow> 'v option list \<Rightarrow> int list" where
  "dumped_oids tx fmts ps =
     map (\<lambda>(p, f). case p of None \<Rightarrow> UNKNOWN_OID
                     | Some v \<Rightarrow> dumper_oid (get_dumper tx v f)) (zip ps fmts)"

text \<open>
  The names of a list in the order of their first occurrence: a name is added to the names
  seen so far when it is not among them.
\<close>

fun add_new :: "'a list \<Rightarrow> 'a list \<Rightarrow> 'a list" where
  "add_new seen [] = seen"
| "add_new seen (x # xs) = (if x \<in> set seen then add_new seen xs else add_new (seen @ [x]) xs)"

definition first_occurrences :: "'a list \<Rightarrow> 'a list" where
  "first_occurrences xs = add_new [] xs"

text \<open>
  The position of the first occurrence of \<open>x\<close> in a list.
\<close>

fun index_of :: "'a \<Rightarrow> 'a list \<Rightarrow> nat" where
  "index_of x [] = 0"
| "index_of x (y # ys) = (if x = y then 0 else Suc (index_of x ys))"

text \<open>
  The names of the parts, one for each part with a named item.
\<close>

fun part_names :: "'s QueryPart list \<Rightarrow> 's list" where
  "part_names [] = []"
| "part_names (p # ps) =
     (case item p of ItemStr n \<Rightarrow> n # part_names ps | ItemInt i \<Rightarrow> part_names ps)"

text \<open>
  The format of the first part with the name \<open>n\<close>.
\<close>

fun format_of_name :: "'s \<Rightarrow> 's QueryPart list \<Rightarrow> Format" where
  "format_of_name n [] = TEXT"
| "format_of_name n (p # ps) = (if item p = ItemStr n then format p else format_of_name n ps)"

text \<open>
  The marker of a named part, given the name order: the slot of a name is its position there.
\<close>

definition named_marker :: "'s list \<Rightarrow> 's QueryPart \<Rightarrow> bytes" where
  "named_marker names p = (case item p of ItemStr n \<Rightarrow> marker (index_of n names) | ItemInt i \<Rightarrow> [])"

text \<open>
  The dictionary \<^verbatim>\<open>seen\<close> of the named loop when the names \<open>ord\<close> have been seen with the formats
  \<open>fmts\<close>.
\<close>

definition seen_of :: "'s list \<Rightarrow> Format list \<Rightarrow> ('s \<times> bytes \<times> Format) list" where
  "seen_of ord fmts = zip ord (zip (map marker [0..<length ord]) fmts)"

text \<open>
  Literal text put in front of the first text of a list.
\<close>

fun join_first :: "bytes \<Rightarrow> bytes list \<Rightarrow> bytes list" where
  "join_first lit [] = [lit]"
| "join_first lit (l # ls) = (lit @ l) # ls"

text \<open>
  The literal texts of the pairs of the first loop, read from the pairs alone: the text before a
  \<^verbatim>\<open>%%\<close> and one \<^verbatim>\<open>%\<close> are joined to the text that follows; every other pair starts a text of its
  own.
\<close>

fun unescaped :: "(bytes \<times> Match option) list \<Rightarrow> bytes list" where
  "unescaped [] = []"
| "unescaped ((lit, None) # xs) = lit # unescaped xs"
| "unescaped ((lit, Some m) # xs) =
     (if group0 m = ''%%'' then join_first (lit @ ''%'') (unescaped xs)
      else lit # unescaped xs)"

text \<open>
  The bytes of the query that a pair stands for: its text and, if it has one, its match.
\<close>

definition pair_text :: "bytes \<times> Match option \<Rightarrow> bytes" where
  "pair_text x = fst x @ (case snd x of None \<Rightarrow> [] | Some m \<Rightarrow> group0 m)"

definition token_text :: "bytes \<times> Match \<Rightarrow> bytes" where
  "token_text x = fst x @ group0 (snd x)"

text \<open>
  The texts with one marker after each text, as long as there are markers.
\<close>

fun interleave :: "bytes list \<Rightarrow> bytes list \<Rightarrow> bytes" where
  "interleave [] mks = []"
| "interleave (l # ls) [] = l @ interleave ls []"
| "interleave (l # ls) (mk # mks) = l @ mk @ interleave ls mks"

section \<open>Facts about the tokenizer, the rewriter, the reconciler and the session\<close>

lemma query2pg_InrD:
  assumes "query2pg query0 enc = Inr (q, fmts, ord, parts)"
  shows "\<exists>b. query_bytes enc query0 = Inr b \<and> split_query enc b = Inr parts
          \<and> rewrite_parts parts = Inr (q, fmts, ord, parts)"
  using assms
  by (auto simp: query2pg_def rewrite_parts_def
      split: sum.splits list.splits item.splits prod.splits)

lemma rewrite_parts_InrD:
  assumes "rewrite_parts parts = Inr (q, fmts, ord, ps)"
  shows "parts \<noteq> []" and "ps = parts"
    and "(ord = None) = (type_of_item (item (hd parts)) = TypeInt)"
  using assms
  by (auto simp: rewrite_parts_def split: sum.splits list.splits item.splits prod.splits)

lemma lookup_all_Some:
  "(\<forall>n\<in>set names. map_of m n \<noteq> None)
     \<Longrightarrow> lookup_all m names = Some (map (\<lambda>n. the (map_of m n)) names)"
  by (induction names) auto

lemma lookup_all_eq_None:
  "(lookup_all m names = None) = (\<exists>n\<in>set names. map_of m n = None)"
  by (induction names) (auto split: option.splits)

lemma named_loop_distinct:
  "named_loop xs seen ord chunks fmts = Inr (c, f, ord') \<Longrightarrow> map fst seen = ord \<Longrightarrow> distinct ord
     \<Longrightarrow> distinct ord'"
proof (induction xs arbitrary: seen ord chunks fmts)
  case Nil
  then show ?case by simp
next
  case (Cons part rest)
  show ?case
  proof (cases "item part")
    case (ItemInt n)
    with Cons.prems show ?thesis by simp
  next
    case (ItemStr name)
    show ?thesis
    proof (cases "map_of seen name")
      case None
      then have "name \<notin> set ord"
        using Cons.prems(2) by (metis map_of_eq_None_iff set_map)
      with Cons.prems None ItemStr show ?thesis
        by (auto simp: Let_def intro: Cons.IH)
    next
      case (Some a)
      with Cons.prems ItemStr show ?thesis
        by (auto split: prod.splits if_splits intro: Cons.IH)
    qed
  qed
qed

lemma rewrite_parts_named:
  assumes "rewrite_parts parts = Inr (q, fmts, Some names, ps)"
  shows "distinct names" and "type_of_item (item (parts ! 0)) = TypeStr"
proof -
  from assms obtain p0 rest s0 where p: "parts = p0 # rest" and i: "item p0 = ItemStr s0"
    by (auto simp: rewrite_parts_def split: list.splits item.splits sum.splits prod.splits)
  from assms p i obtain c where "named_loop (butlast parts) [] [] [] [] = Inr (c, fmts, names)"
    by (auto simp: rewrite_parts_def split: sum.splits prod.splits)
  then show "distinct names"
    by (rule named_loop_distinct) simp_all
  show "type_of_item (item (parts ! 0)) = TypeStr"
    using p i by simp
qed

text \<open>The queries of the examples, rewritten under the ASCII codec.\<close>

lemma query2pg_two_anonymous:
  "query2pg (QBytes ''select %s, %s'') ascii =
     Inr (''select $1, $2'', [TEXT, TEXT], None,
          [QueryPart ''select '' (ItemInt 0) TEXT, QueryPart '', '' (ItemInt 1) TEXT,
           QueryPart [] (ItemInt 0) TEXT])"
  by code_simp

lemma query2pg_two_named:
  "query2pg (QBytes ''select %(a)s, %(b)s'') ascii =
     Inr (''select $1, $2'', [TEXT, TEXT], Some [''a'', ''b''],
          [QueryPart ''select '' (ItemStr ''a'') TEXT, QueryPart '', '' (ItemStr ''b'') TEXT,
           QueryPart [] (ItemInt 0) TEXT])"
  by code_simp

lemma query2pg_no_placeholder:
  "query2pg (QBytes ''select 1'') ascii =
     Inr (''select 1'', [], None, [QueryPart ''select 1'' (ItemInt 0) TEXT])"
  by code_simp

lemma split_rest_escape_last:
  "group0 m = ''%%'' \<Longrightarrow>
   split_rest enc q [(lit, m)] t i ph rv = split_rest enc q [] (lit @ ''%'' @ t) i ph rv"
  by (simp add: split_rest.simps(2))

lemma split_rest_escape_next:
  "group0 m = ''%%'' \<Longrightarrow>
   split_rest enc q ((lit, m) # x # xs) t i ph rv
     = split_rest enc q ((lit @ ''%'' @ fst x, snd x) # xs) t i ph rv"
  by (simp add: split_rest.simps(2))

lemma split_rest_placeholder:
  "group0 m \<noteq> ''%%'' \<Longrightarrow>
   split_rest enc q ((lit, m) # xs) t i ph rv =
     (case placeholder_error enc q m of
        Some e \<Rightarrow> Inl e
      | None \<Rightarrow>
          (case placeholder_item enc i m of
             Inl e \<Rightarrow> Inl e
           | Inr it \<Rightarrow>
               if ph \<noteq> None \<and> ph \<noteq> Some (type_of_item it)
               then Inl (ProgrammingError CannotBeMixed)
               else split_rest enc q xs t (i + 1) (Some (type_of_item it))
                      (rv @ [QueryPart lit it (Format_of_bool (last_slice (group0 m) = ''b''))])))"
  by (simp add: split_rest.simps(2))

lemma closed_pairs_nth_tail: "closed_pairs xs t ! length xs = (t, None)"
  by (simp add: closed_pairs_def nth_append)

lemma length_closed_pairs: "length (closed_pairs xs t) = Suc (length xs)"
  by (simp add: closed_pairs_def)

lemma merge_last:
  "del_at (length xs0) ((closed_pairs (xs0 @ [(lit, m)]) t)[Suc (length xs0) := (lit @ ''%'' @ t, None)])
     = closed_pairs xs0 (lit @ ''%'' @ t)"
  by (simp add: closed_pairs_def del_at_def list_update_append)

lemma merge_next:
  "del_at (length xs0)
      ((closed_pairs (xs0 @ (lit, m) # x # xs') t)[Suc (length xs0) := (lit @ ''%'' @ fst x, Some (snd x))])
     = closed_pairs (xs0 @ (lit @ ''%'' @ fst x, snd x) # xs') t"
  by (simp add: closed_pairs_def del_at_def list_update_append)

lemma split_loop_rest:
  "length xs0 = i \<Longrightarrow>
   split_loop enc q (closed_pairs (xs0 @ ys) t) i ph rv = split_rest enc q ys t i ph rv"
proof (induction enc q ys t i ph rv arbitrary: xs0 rule: split_rest.induct)
  case (1 enc q t i phtype rv)
  then show ?case
    by (subst split_loop.simps) (auto simp: closed_pairs_nth_tail length_closed_pairs)
next
  case (2 enc q lit m xs t i phtype rv)
  let ?parts = "closed_pairs (xs0 @ (lit, m) # xs) t"
  note i = \<open>length xs0 = i\<close>
  have at_i: "?parts ! i = (lit, Some m)"
    using i by (auto simp: closed_pairs_def nth_append)
  have len: "i < length ?parts" "i + 1 < length ?parts"
    using i by (auto simp: closed_pairs_def)
  show ?case
  proof (cases "group0 m = ''%%''")
    case True
    show ?thesis
    proof (cases xs)
      case Nil
      have nx: "?parts ! (i + 1) = (t, None)"
        using Nil i by (auto simp: closed_pairs_def nth_append)
      have "split_loop enc q ?parts i phtype rv
          = split_loop enc q (closed_pairs xs0 (lit @ ''%'' @ t)) i phtype rv"
        using True len at_i nx Nil i merge_last [of xs0 lit m t]
        by (subst split_loop.simps) auto
      also have "\<dots> = split_rest enc q [] (lit @ ''%'' @ t) i phtype rv"
        using "2.IH"(1) [OF True Nil, of xs0] i by simp
      finally show ?thesis
        using True Nil by (simp add: split_rest_escape_last)
    next
      case (Cons x xs')
      have nx: "?parts ! (i + 1) = (fst x, Some (snd x))"
        using Cons i by (auto simp: closed_pairs_def nth_append)
      have "split_loop enc q ?parts i phtype rv
          = split_loop enc q
              (closed_pairs (xs0 @ (lit @ ''%'' @ fst x, snd x) # xs') t) i phtype rv"
        using True len at_i nx Cons i merge_next [of xs0 lit m x xs' t]
        by (subst split_loop.simps) auto
      also have "\<dots> = split_rest enc q ((lit @ ''%'' @ fst x, snd x) # xs') t i phtype rv"
        using "2.IH"(2) [OF True Cons, of xs0] i by simp
      finally show ?thesis
        using True Cons by (simp add: split_rest_escape_next)
    qed
  next
    case False
    show ?thesis
    proof (cases "placeholder_error enc q m")
      case (Some e)
      then show ?thesis
        using False len at_i by (subst split_loop.simps) (simp add: split_rest_placeholder)
    next
      case None
      show ?thesis
      proof (cases "placeholder_item enc i m")
        case (Inl e)
        then show ?thesis
          using False None len at_i by (subst split_loop.simps) (simp add: split_rest_placeholder)
      next
        case (Inr it)
        show ?thesis
        proof (cases "phtype \<noteq> None \<and> phtype \<noteq> Some (type_of_item it)")
          case True
          then show ?thesis
            using False None Inr len at_i
            by (subst split_loop.simps) (auto simp: split_rest_placeholder)
        next
          case mixed: False
          have "split_loop enc q (closed_pairs ((xs0 @ [(lit, m)]) @ xs) t)
                  (i + 1) (Some (type_of_item it))
                  (rv @ [QueryPart lit it (Format_of_bool (last_slice (group0 m) = ''b''))])
              = split_rest enc q xs t (i + 1) (Some (type_of_item it))
                  (rv @ [QueryPart lit it (Format_of_bool (last_slice (group0 m) = ''b''))])"
            using "2.IH"(3) [OF False None Inr mixed, of "xs0 @ [(lit, m)]"] i by simp
          then show ?thesis
            using False None Inr mixed len at_i
            by (subst split_loop.simps) (auto simp: split_rest_placeholder)
        qed
      qed
    qed
  qed
qed

lemma pairs_loop_eq:
  "pairs_loop q cur ms parts
     = (parts @ map (\<lambda>x. (fst x, Some (snd x))) (tokens_from q cur ms), final_cur cur ms)"
  by (induction ms arbitrary: cur parts) simp_all

lemma split_pairs_eq: "split_pairs q = closed_pairs (tokens q) (trailer q)"
  by (cases "finditer q")
     (simp_all add: split_pairs_def pairs_loop_eq closed_pairs_def tokens_def trailer_def)

lemma map_snd_tokens_from: "map snd (tokens_from q cur ms) = ms"
  by (induction ms arbitrary: cur) simp_all

lemma map_snd_tokens: "map snd (tokens q) = finditer q"
  by (simp add: tokens_def map_snd_tokens_from)

lemma split_query_eq:
  "split_query enc q = split_rest enc q (tokens q) (trailer q) 0 None []"
  using split_loop_rest [of "[]" 0 enc q "tokens q" "trailer q" None "[]"]
  by (simp add: split_query_def split_pairs_eq)

lemma placeholder_item_type:
  "placeholder_item enc i m = Inr it \<Longrightarrow> type_of_item it = match_type m"
  by (auto simp: placeholder_item_def match_type_def split: option.splits)

lemma placeholder_item_index:
  "placeholder_item enc i m = Inr (ItemInt n) \<Longrightarrow> n = int i"
  by (auto simp: placeholder_item_def split: option.splits)

lemma slots_Nil: "slots [] = 0"
  by (simp add: slots_def)

lemma slots_escape: "group0 m = ''%%'' \<Longrightarrow> slots ((lit, m) # xs) = slots xs"
  by (simp add: slots_def not_escape_def)

lemma slots_placeholder: "group0 m \<noteq> ''%%'' \<Longrightarrow> slots ((lit, m) # xs) = Suc (slots xs)"
  by (simp add: slots_def not_escape_def)

lemma slots_merged: "slots ((lit, snd x) # xs) = slots (x # xs)"
  by (simp add: slots_def)

lemma appendedI:
  assumes "out = rv @ mid @ [QueryPart t' (ItemInt 0) TEXT]" and "length mid = n"
    and "\<forall>k<length mid. \<forall>j. item (mid ! k) = ItemInt j \<longrightarrow> j = int (i + k)"
    and "\<forall>p\<in>set mid. \<forall>T. ph = Some T \<longrightarrow> type_of_item (item p) = T"
    and "\<forall>p\<in>set mid. \<forall>p'\<in>set mid. type_of_item (item p) = type_of_item (item p')"
  shows "appended i ph rv n out"
  unfolding appended_def using assms by (intro exI conjI) assumption+

lemma appended_SomeD:
  assumes "appended i (Some T) rv n out"
  shows "\<exists>mid t'. out = rv @ mid @ [QueryPart t' (ItemInt 0) TEXT] \<and> length mid = n
          \<and> (\<forall>k<length mid. \<forall>j. item (mid ! k) = ItemInt j \<longrightarrow> j = int (i + k))
          \<and> (\<forall>p\<in>set mid. type_of_item (item p) = T)"
proof -
  from assms obtain mid t' where a: "out = rv @ mid @ [QueryPart t' (ItemInt 0) TEXT]"
    "length mid = n" "\<forall>k<length mid. \<forall>j. item (mid ! k) = ItemInt j \<longrightarrow> j = int (i + k)"
    "\<forall>p\<in>set mid. \<forall>T'. Some T = Some T' \<longrightarrow> type_of_item (item p) = T'"
    unfolding appended_def by blast
  from a(4) have "\<forall>p\<in>set mid. type_of_item (item p) = T"
    by simp
  with a(1-3) show ?thesis
    by blast
qed

lemma split_rest_Inr:
  assumes "split_rest enc q xs t i ph rv = Inr out"
  shows "appended i ph rv (slots xs) out"
  using assms
proof (induction enc q xs t i ph rv arbitrary: out rule: split_rest.induct)
  case (1 enc q t i phtype rv)
  then show ?case by (auto simp: appended_def slots_Nil)
next
  case (2 enc q lit m xs t i phtype rv)
  show ?case
  proof (cases "group0 m = ''%%''")
    case True
    show ?thesis
    proof (cases xs)
      case Nil
      have "split_rest enc q [] (lit @ ''%'' @ t) i phtype rv = Inr out"
        using "2.prems" True Nil by (simp add: split_rest_escape_last)
      from "2.IH"(1) [OF True Nil this] show ?thesis
        using True Nil by (simp add: slots_escape slots_Nil)
    next
      case (Cons x xs')
      have "split_rest enc q ((lit @ ''%'' @ fst x, snd x) # xs') t i phtype rv = Inr out"
        using "2.prems" True Cons by (simp add: split_rest_escape_next)
      from "2.IH"(2) [OF True Cons this] show ?thesis
        using True Cons by (simp only: slots_escape slots_merged)
    qed
  next
    case False
    from "2.prems" False obtain it where
      pe: "placeholder_error enc q m = None" and pi: "placeholder_item enc i m = Inr it"
      and ok: "\<not> (phtype \<noteq> None \<and> phtype \<noteq> Some (type_of_item it))"
      and run: "split_rest enc q xs t (i + 1) (Some (type_of_item it))
             (rv @ [QueryPart lit it (Format_of_bool (last_slice (group0 m) = ''b''))]) = Inr out"
      by (auto simp: split_rest_placeholder split: option.splits sum.splits if_splits)
    let ?p = "QueryPart lit it (Format_of_bool (last_slice (group0 m) = ''b''))"
    from appended_SomeD [OF "2.IH"(3) [OF False pe pi ok run]] obtain mid t' where
      out: "out = (rv @ [?p]) @ mid @ [QueryPart t' (ItemInt 0) TEXT]"
      and len: "length mid = slots xs"
      and idx: "\<forall>k<length mid. \<forall>n. item (mid ! k) = ItemInt n \<longrightarrow> n = int (i + 1 + k)"
      and ty: "\<forall>p\<in>set mid. type_of_item (item p) = type_of_item it"
      by blast
    have idx': "\<forall>k<length (?p # mid). \<forall>n. item ((?p # mid) ! k) = ItemInt n \<longrightarrow> n = int (i + k)"
    proof (intro allI impI)
      fix k n
      assume k: "k < length (?p # mid)" and n: "item ((?p # mid) ! k) = ItemInt n"
      show "n = int (i + k)"
      proof (cases k)
        case 0
        with n pi show ?thesis
          by (simp add: placeholder_item_index)
      next
        case (Suc j)
        with k n idx show ?thesis by simp
      qed
    qed
    have 1: "out = rv @ (?p # mid) @ [QueryPart t' (ItemInt 0) TEXT]"
      using out by simp
    have 2: "length (?p # mid) = slots ((lit, m) # xs)"
      using len False by (simp add: slots_placeholder)
    have 3: "\<forall>p\<in>set (?p # mid). \<forall>T. phtype = Some T \<longrightarrow> type_of_item (item p) = T"
      using ty ok by auto
    have 4: "\<forall>p\<in>set (?p # mid). \<forall>p'\<in>set (?p # mid).
        type_of_item (item p) = type_of_item (item p')"
      using ty by auto
    show ?thesis
      by (rule appendedI [OF 1 2 idx' 3 4])
  qed
qed

lemma accepted_no_error:
  assumes "accepted enc m"
  shows "placeholder_error enc q m = None"
proof -
  from assms have ne: "group0 m \<noteq> []"
    and l: "last (group0 m) = CHR ''s'' \<or> last (group0 m) = CHR ''b''"
    by (simp_all add: accepted_def has_format_char_def)
  have 1: "group0 m \<noteq> ''%(''"
  proof
    assume "group0 m = ''%(''"
    then have "last (group0 m) = CHR ''(''" by simp
    with l show False by simp
  qed
  have 2: "group0 m \<noteq> ''% ''"
  proof
    assume "group0 m = ''% ''"
    then have "last (group0 m) = CHR '' ''" by simp
    with l show False by simp
  qed
  have 3: "in_bs (last_slice (group0 m))"
    using ne l by (auto simp: last_slice_def in_bs_def)
  show ?thesis
    using 1 2 3 by (simp add: placeholder_error_def)
qed

lemma accepted_item: "accepted enc m \<Longrightarrow> \<exists>it. placeholder_item enc i m = Inr it"
  by (auto simp: accepted_def placeholder_item_def split: option.splits)

lemma split_rest_other_type_fails:
  assumes "\<exists>x\<in>set xs. not_escape (snd x) \<and> match_type (snd x) \<noteq> T" and "ph = Some T"
  shows "isl (split_rest enc q xs t i ph rv)"
  using assms
proof (induction enc q xs t i ph rv rule: split_rest.induct)
  case (1 enc q t i phtype rv)
  then show ?case by simp
next
  case (2 enc q lit m xs t i phtype rv)
  show ?case
  proof (cases "group0 m = ''%%''")
    case True
    then have esc: "\<not> not_escape m"
      by (simp add: not_escape_def)
    show ?thesis
    proof (cases xs)
      case Nil
      with "2.prems" esc show ?thesis by simp
    next
      case (Cons x xs')
      let ?ys = "(lit @ ''%'' @ fst x, snd x) # xs'"
      have w: "\<exists>y\<in>set ?ys. not_escape (snd y) \<and> match_type (snd y) \<noteq> T"
        using "2.prems"(1) esc Cons by auto
      have "isl (split_rest enc q ?ys t i phtype rv)"
        by (rule "2.IH"(2) [OF True Cons w "2.prems"(2)])
      then show ?thesis
        using True Cons by (simp add: split_rest_escape_next)
    qed
  next
    case False
    show ?thesis
    proof (cases "placeholder_error enc q m")
      case (Some e)
      then show ?thesis
        using False by (simp add: split_rest_placeholder)
    next
      case None
      show ?thesis
      proof (cases "placeholder_item enc i m")
        case (Inl e)
        then show ?thesis
          using False None by (simp add: split_rest_placeholder)
      next
        case (Inr it)
        note ty = placeholder_item_type [OF Inr]
        show ?thesis
        proof (cases "match_type m = T")
          case diff: False
          then show ?thesis
            using False None Inr ty "2.prems"(2) by (simp add: split_rest_placeholder)
        next
          case same: True
          have ok: "\<not> (phtype \<noteq> None \<and> phtype \<noteq> Some (type_of_item it))"
            using same ty "2.prems"(2) by simp
          have w: "\<exists>y\<in>set xs. not_escape (snd y) \<and> match_type (snd y) \<noteq> T"
            using "2.prems"(1) same by auto
          have ph': "Some (type_of_item it) = Some T"
            using same ty by simp
          have "isl (split_rest enc q xs t (i + 1) (Some (type_of_item it))
              (rv @ [QueryPart lit it (Format_of_bool (last_slice (group0 m) = ''b''))]))"
            by (rule "2.IH"(3) [OF False None Inr ok w ph'])
          then show ?thesis
            using False None Inr ok by (simp add: split_rest_placeholder)
        qed
      qed
    qed
  qed
qed

lemma accepted_item_type:
  assumes "accepted enc m"
  obtains it where "placeholder_item enc i m = Inr it" and "type_of_item it = match_type m"
  using assms accepted_item [of enc m i] placeholder_item_type by blast

lemma split_rest_other_type_mixed:
  assumes "\<exists>x\<in>set xs. not_escape (snd x) \<and> match_type (snd x) \<noteq> T" and "ph = Some T"
    and "\<forall>x\<in>set xs. not_escape (snd x) \<longrightarrow> accepted enc (snd x)"
  shows "split_rest enc q xs t i ph rv = Inl (ProgrammingError CannotBeMixed)"
  using assms
proof (induction enc q xs t i ph rv rule: split_rest.induct)
  case (1 enc q t i phtype rv)
  then show ?case by simp
next
  case (2 enc q lit m xs t i phtype rv)
  show ?case
  proof (cases "group0 m = ''%%''")
    case True
    then have esc: "\<not> not_escape m"
      by (simp add: not_escape_def)
    show ?thesis
    proof (cases xs)
      case Nil
      with "2.prems" esc show ?thesis by simp
    next
      case (Cons x xs')
      let ?ys = "(lit @ ''%'' @ fst x, snd x) # xs'"
      have w: "\<exists>y\<in>set ?ys. not_escape (snd y) \<and> match_type (snd y) \<noteq> T"
        using "2.prems"(1) esc Cons by auto
      have acc: "\<forall>y\<in>set ?ys. not_escape (snd y) \<longrightarrow> accepted enc (snd y)"
        using "2.prems"(3) Cons by auto
      have "split_rest enc q ?ys t i phtype rv = Inl (ProgrammingError CannotBeMixed)"
        by (rule "2.IH"(2) [OF True Cons w "2.prems"(2) acc])
      then show ?thesis
        using True Cons by (simp add: split_rest_escape_next)
    qed
  next
    case False
    then have "accepted enc m"
      using "2.prems"(3) by (simp add: not_escape_def)
    then have None: "placeholder_error enc q m = None"
      by (rule accepted_no_error)
    from \<open>accepted enc m\<close> obtain it where Inr: "placeholder_item enc i m = Inr it"
      and ty: "type_of_item it = match_type m"
      by (rule accepted_item_type)
    show ?thesis
    proof (cases "match_type m = T")
      case diff: False
      then show ?thesis
        using False None Inr ty "2.prems"(2) by (simp add: split_rest_placeholder)
    next
      case same: True
      have ok: "\<not> (phtype \<noteq> None \<and> phtype \<noteq> Some (type_of_item it))"
        using same ty "2.prems"(2) by simp
      have w: "\<exists>y\<in>set xs. not_escape (snd y) \<and> match_type (snd y) \<noteq> T"
        using "2.prems"(1) same by auto
      have ph': "Some (type_of_item it) = Some T"
        using same ty by simp
      have acc: "\<forall>y\<in>set xs. not_escape (snd y) \<longrightarrow> accepted enc (snd y)"
        using "2.prems"(3) by simp
      have "split_rest enc q xs t (i + 1) (Some (type_of_item it))
          (rv @ [QueryPart lit it (Format_of_bool (last_slice (group0 m) = ''b''))])
          = Inl (ProgrammingError CannotBeMixed)"
        by (rule "2.IH"(3) [OF False None Inr ok w ph' acc])
      then show ?thesis
        using False None Inr ok by (simp add: split_rest_placeholder)
    qed
  qed
qed

lemma split_rest_both_types_fails:
  assumes "\<exists>x\<in>set xs. not_escape (snd x) \<and> match_type (snd x) = TypeInt"
    and "\<exists>x\<in>set xs. not_escape (snd x) \<and> match_type (snd x) = TypeStr"
  shows "isl (split_rest enc q xs t i None rv)"
  using assms
proof (induction xs arbitrary: t rule: length_induct)
  case (1 xs)
  show ?case
  proof (cases xs)
    case Nil
    with "1.prems" show ?thesis by simp
  next
    case (Cons a xs1)
    obtain lit m where a: "a = (lit, m)"
      by (cases a)
    show ?thesis
    proof (cases "group0 m = ''%%''")
      case True
      then have esc: "\<not> not_escape m"
        by (simp add: not_escape_def)
      show ?thesis
      proof (cases xs1)
        case Nil
        with "1.prems" esc Cons a show ?thesis by simp
      next
        case c2: (Cons x xs')
        let ?ys = "(lit @ ''%'' @ fst x, snd x) # xs'"
        have w1: "\<exists>y\<in>set ?ys. not_escape (snd y) \<and> match_type (snd y) = TypeInt"
          using "1.prems"(1) esc Cons a c2 by auto
        have w2: "\<exists>y\<in>set ?ys. not_escape (snd y) \<and> match_type (snd y) = TypeStr"
          using "1.prems"(2) esc Cons a c2 by auto
        have "length ?ys < length xs"
          using Cons c2 by simp
        with "1.IH" w1 w2 have "isl (split_rest enc q ?ys t i None rv)"
          by blast
        then show ?thesis
          using True Cons a c2 by (simp add: split_rest_escape_next)
      qed
    next
      case False
      have w: "\<exists>y\<in>set xs1. not_escape (snd y) \<and> match_type (snd y) \<noteq> match_type m"
      proof (cases "match_type m")
        case TypeInt
        with "1.prems"(2) Cons a show ?thesis by auto
      next
        case TypeStr
        with "1.prems"(1) Cons a show ?thesis by auto
      qed
      show ?thesis
      proof (cases "placeholder_error enc q m")
        case (Some e)
        then show ?thesis
          using False Cons a by (simp add: split_rest_placeholder)
      next
        case None
        show ?thesis
        proof (cases "placeholder_item enc i m")
          case (Inl e)
          then show ?thesis
            using False None Cons a by (simp add: split_rest_placeholder)
        next
          case (Inr it)
          note ty = placeholder_item_type [OF Inr]
          have "isl (split_rest enc q xs1 t (i + 1) (Some (match_type m))
              (rv @ [QueryPart lit it (Format_of_bool (last_slice (group0 m) = ''b''))]))"
            by (rule split_rest_other_type_fails [OF w refl])
          then show ?thesis
            using False None Inr ty Cons a by (simp add: split_rest_placeholder)
        qed
      qed
    qed
  qed
qed

lemma split_rest_both_types_mixed:
  assumes "\<exists>x\<in>set xs. not_escape (snd x) \<and> match_type (snd x) = TypeInt"
    and "\<exists>x\<in>set xs. not_escape (snd x) \<and> match_type (snd x) = TypeStr"
    and "\<forall>x\<in>set xs. not_escape (snd x) \<longrightarrow> accepted enc (snd x)"
  shows "split_rest enc q xs t i None rv = Inl (ProgrammingError CannotBeMixed)"
  using assms
proof (induction xs arbitrary: t rule: length_induct)
  case (1 xs)
  show ?case
  proof (cases xs)
    case Nil
    with "1.prems" show ?thesis by simp
  next
    case (Cons a xs1)
    obtain lit m where a: "a = (lit, m)"
      by (cases a)
    show ?thesis
    proof (cases "group0 m = ''%%''")
      case True
      then have esc: "\<not> not_escape m"
        by (simp add: not_escape_def)
      show ?thesis
      proof (cases xs1)
        case Nil
        with "1.prems" esc Cons a show ?thesis by simp
      next
        case c2: (Cons x xs')
        let ?ys = "(lit @ ''%'' @ fst x, snd x) # xs'"
        have w1: "\<exists>y\<in>set ?ys. not_escape (snd y) \<and> match_type (snd y) = TypeInt"
          using "1.prems"(1) esc Cons a c2 by auto
        have w2: "\<exists>y\<in>set ?ys. not_escape (snd y) \<and> match_type (snd y) = TypeStr"
          using "1.prems"(2) esc Cons a c2 by auto
        have acc: "\<forall>y\<in>set ?ys. not_escape (snd y) \<longrightarrow> accepted enc (snd y)"
          using "1.prems"(3) Cons a c2 by auto
        have "length ?ys < length xs"
          using Cons c2 by simp
        with "1.IH" w1 w2 acc
        have "split_rest enc q ?ys t i None rv = Inl (ProgrammingError CannotBeMixed)"
          by blast
        then show ?thesis
          using True Cons a c2 by (simp add: split_rest_escape_next)
      qed
    next
      case False
      have w: "\<exists>y\<in>set xs1. not_escape (snd y) \<and> match_type (snd y) \<noteq> match_type m"
      proof (cases "match_type m")
        case TypeInt
        with "1.prems"(2) Cons a show ?thesis by auto
      next
        case TypeStr
        with "1.prems"(1) Cons a show ?thesis by auto
      qed
      from False have "accepted enc m"
        using "1.prems"(3) Cons a by (simp add: not_escape_def)
      then have None: "placeholder_error enc q m = None"
        by (rule accepted_no_error)
      from \<open>accepted enc m\<close> obtain it where Inr: "placeholder_item enc i m = Inr it"
        and ty: "type_of_item it = match_type m"
        by (rule accepted_item_type)
      have acc: "\<forall>y\<in>set xs1. not_escape (snd y) \<longrightarrow> accepted enc (snd y)"
        using "1.prems"(3) Cons by simp
      have "split_rest enc q xs1 t (i + 1) (Some (match_type m))
          (rv @ [QueryPart lit it (Format_of_bool (last_slice (group0 m) = ''b''))])
         = Inl (ProgrammingError CannotBeMixed)"
        by (rule split_rest_other_type_mixed [OF w refl acc])
      then show ?thesis
        using False None Inr ty Cons a by (simp add: split_rest_placeholder)
    qed
  qed
qed

lemma slots_tokens: "slots (tokens q) = length (placeholders q)"
  by (simp add: slots_def placeholders_def map_snd_tokens)

lemma split_query_Inr:
  assumes "split_query enc q = Inr parts"
  obtains mid t' where "parts = mid @ [QueryPart t' (ItemInt 0) TEXT]"
    and "length mid = length (placeholders q)"
    and "\<forall>k<length mid. \<forall>j. item (mid ! k) = ItemInt j \<longrightarrow> j = int k"
    and "\<forall>p\<in>set mid. \<forall>p'\<in>set mid. type_of_item (item p) = type_of_item (item p')"
proof -
  have "appended 0 None [] (slots (tokens q)) parts"
    using assms split_rest_Inr [of enc q "tokens q" "trailer q" 0 None "[]" parts]
    by (simp add: split_query_eq)
  then obtain mid t' where a: "parts = [] @ mid @ [QueryPart t' (ItemInt 0) TEXT]"
    "length mid = slots (tokens q)"
    "\<forall>k<length mid. \<forall>j. item (mid ! k) = ItemInt j \<longrightarrow> j = int (0 + k)"
    "\<forall>p\<in>set mid. \<forall>p'\<in>set mid. type_of_item (item p) = type_of_item (item p')"
    unfolding appended_def by blast
  have 1: "parts = mid @ [QueryPart t' (ItemInt 0) TEXT]"
    using a(1) by simp
  have 2: "length mid = length (placeholders q)"
    using a(2) by (simp only: slots_tokens)
  have 3: "\<forall>k<length mid. \<forall>j. item (mid ! k) = ItemInt j \<longrightarrow> j = int k"
    using a(3) by simp
  show ?thesis
    by (rule that [OF 1 2 3 a(4)])
qed

lemma bex_filter_snd:
  "(\<exists>x\<in>set xs. A (snd x) \<and> P (snd x)) = (\<exists>m\<in>set (filter A (map snd xs)). P m)"
  by (induction xs) auto

lemma ball_filter_snd:
  "(\<forall>x\<in>set xs. A (snd x) \<longrightarrow> P (snd x)) = (\<forall>m\<in>set (filter A (map snd xs)). P m)"
  by (induction xs) auto

lemma tokens_witness:
  "(\<exists>x\<in>set (tokens q). not_escape (snd x) \<and> P (snd x)) = (\<exists>m\<in>set (placeholders q). P m)"
  unfolding placeholders_def map_snd_tokens [symmetric] by (rule bex_filter_snd)

lemma tokens_all:
  "(\<forall>x\<in>set (tokens q). not_escape (snd x) \<longrightarrow> P (snd x)) = (\<forall>m\<in>set (placeholders q). P m)"
  unfolding placeholders_def map_snd_tokens [symmetric] by (rule ball_filter_snd)

lemma match_type_simps:
  "(match_type m = TypeInt) = (group1 m = None)"
  "(match_type m = TypeStr) = (group1 m \<noteq> None)"
  by (simp_all add: match_type_def)

lemma split_query_same_type:
  assumes "split_query enc q = Inr parts"
  shows "(\<forall>p\<in>set (butlast parts). type_of_item (item p) = TypeInt)
          \<or> (\<forall>p\<in>set (butlast parts). type_of_item (item p) = TypeStr)"
proof -
  from assms obtain mid t' where parts: "parts = mid @ [QueryPart t' (ItemInt 0) TEXT]"
    and same: "\<forall>p\<in>set mid. \<forall>p'\<in>set mid. type_of_item (item p) = type_of_item (item p')"
    by (rule split_query_Inr)
  have bl: "butlast parts = mid"
    unfolding parts by simp
  have "(\<forall>p\<in>set mid. type_of_item (item p) = TypeInt)
          \<or> (\<forall>p\<in>set mid. type_of_item (item p) = TypeStr)"
  proof (rule ccontr)
    assume "\<not> ?thesis"
    then obtain p p' where "p \<in> set mid" "type_of_item (item p) \<noteq> TypeInt"
      "p' \<in> set mid" "type_of_item (item p') \<noteq> TypeStr"
      by blast
    moreover from this have "type_of_item (item p) = TypeStr" "type_of_item (item p') = TypeInt"
      by (metis item_type.exhaust)+
    ultimately show False
      using same by (metis item_type.distinct(1))
  qed
  then show ?thesis
    unfolding bl .
qed

lemma split_query_index:
  assumes "split_query enc q = Inr parts" and "k < length (butlast parts)"
    and "item (parts ! k) = ItemInt j"
  shows "j = int k"
proof -
  from assms(1) obtain mid t' where parts: "parts = mid @ [QueryPart t' (ItemInt 0) TEXT]"
    and idx: "\<forall>k<length mid. \<forall>j. item (mid ! k) = ItemInt j \<longrightarrow> j = int k"
    by (rule split_query_Inr)
  have bl: "butlast parts = mid"
    unfolding parts by simp
  have k: "k < length mid"
    using assms(2) unfolding bl .
  then have "parts ! k = mid ! k"
    unfolding parts by (simp add: nth_append)
  then have "item (mid ! k) = ItemInt j"
    using assms(3) by simp
  with idx k show ?thesis
    by blast
qed

lemma split_query_mixed:
  assumes "\<exists>m\<in>set (placeholders q). group1 m = None"
    and "\<exists>m\<in>set (placeholders q). group1 m \<noteq> None"
  shows "isl (split_query enc q)"
    and "\<forall>m\<in>set (placeholders q). accepted enc m
           \<Longrightarrow> split_query enc q = Inl (ProgrammingError CannotBeMixed)"
proof -
  have w1: "\<exists>x\<in>set (tokens q). not_escape (snd x) \<and> match_type (snd x) = TypeInt"
    unfolding match_type_simps
    using tokens_witness [of q "\<lambda>m. group1 m = None"] assms(1) by blast
  have w2: "\<exists>x\<in>set (tokens q). not_escape (snd x) \<and> match_type (snd x) = TypeStr"
    unfolding match_type_simps
    using tokens_witness [of q "\<lambda>m. group1 m \<noteq> None"] assms(2) by blast
  show "isl (split_query enc q)"
    unfolding split_query_eq by (rule split_rest_both_types_fails [OF w1 w2])
  assume "\<forall>m\<in>set (placeholders q). accepted enc m"
  then have acc: "\<forall>x\<in>set (tokens q). not_escape (snd x) \<longrightarrow> accepted enc (snd x)"
    using tokens_all [of q "accepted enc"] by blast
  show "split_query enc q = Inl (ProgrammingError CannotBeMixed)"
    unfolding split_query_eq by (rule split_rest_both_types_mixed [OF w1 w2 acc])
qed

lemma convert_split_error:
  assumes "split_query (encoding tx) q = Inl e"
  shows "convert tx (QBytes q) (Some vars) self = (Some e, self)"
  using assms by (simp add: convert_def query2pg_def query_bytes_def)

lemma mixed_has_anonymous:
  "list_ex (\<lambda>m. group1 m = None) (placeholders ''select %s, %(a)s'')"
  by code_simp

lemma mixed_has_named:
  "list_ex (\<lambda>m. group1 m \<noteq> None) (placeholders ''select %s, %(a)s'')"
  by code_simp

lemma mixed_accepted:
  "list_all (accepted ascii) (placeholders ''select %s, %(a)s'')"
  by code_simp

lemma split_query_two_anonymous:
  "split_query ascii ''select %s, %s'' =
     Inr [QueryPart ''select '' (ItemInt 0) TEXT, QueryPart '', '' (ItemInt 1) TEXT,
          QueryPart [] (ItemInt 0) TEXT]"
  by code_simp

lemma split_rest_formats:
  assumes "split_rest enc q xs t i ph rv = Inr out"
  shows "map format (butlast out) = map format rv @ map match_format (filter not_escape (map snd xs))"
  using assms
proof (induction enc q xs t i ph rv arbitrary: out rule: split_rest.induct)
  case (1 enc q t i phtype rv)
  then show ?case by auto
next
  case (2 enc q lit m xs t i phtype rv)
  show ?case
  proof (cases "group0 m = ''%%''")
    case True
    then have esc: "\<not> not_escape m"
      by (simp add: not_escape_def)
    show ?thesis
    proof (cases xs)
      case Nil
      have "split_rest enc q [] (lit @ ''%'' @ t) i phtype rv = Inr out"
        using "2.prems" True Nil by (simp add: split_rest_escape_last)
      from "2.IH"(1) [OF True Nil this] show ?thesis
        using esc Nil by simp
    next
      case (Cons x xs')
      have "split_rest enc q ((lit @ ''%'' @ fst x, snd x) # xs') t i phtype rv = Inr out"
        using "2.prems" True Cons by (simp add: split_rest_escape_next)
      from "2.IH"(2) [OF True Cons this] show ?thesis
        using esc Cons by simp
    qed
  next
    case False
    then have ne: "not_escape m"
      by (simp add: not_escape_def)
    from "2.prems" False obtain it where
      pe: "placeholder_error enc q m = None" and pi: "placeholder_item enc i m = Inr it"
      and ok: "\<not> (phtype \<noteq> None \<and> phtype \<noteq> Some (type_of_item it))"
      and run: "split_rest enc q xs t (i + 1) (Some (type_of_item it))
             (rv @ [QueryPart lit it (Format_of_bool (last_slice (group0 m) = ''b''))]) = Inr out"
      by (auto simp: split_rest_placeholder split: option.splits sum.splits if_splits)
    from "2.IH"(3) [OF False pe pi ok run] show ?thesis
      using ne by (simp add: match_format_def)
  qed
qed

lemma split_query_formats:
  assumes "split_query enc q = Inr parts"
  shows "map format (butlast parts) = map match_format (placeholders q)"
  using split_rest_formats [of enc q "tokens q" "trailer q" 0 None "[]" parts] assms
  by (simp add: split_query_eq placeholders_def map_snd_tokens)

lemma positional_loop_indexed:
  assumes "\<forall>k<length xs. item (xs ! k) = ItemInt (int (i + k))"
  shows "positional_loop xs chunks fmts =
           Inr (chunks @ concat (map (\<lambda>(k, p). [pre p, marker k]) (enumerate i xs)),
                fmts @ map format xs)"
  using assms
proof (induction xs arbitrary: i chunks fmts)
  case Nil
  then show ?case by simp
next
  case (Cons p xs)
  have p: "item p = ItemInt (int i)"
    using Cons.prems by fastforce
  have rest: "\<forall>k<length xs. item (xs ! k) = ItemInt (int (Suc i + k))"
    using Cons.prems by fastforce
  show ?case
    using p Cons.IH [OF rest] by (simp add: marker_def add.commute)
qed

lemma concat_chunks:
  "concat (concat (map (\<lambda>(k, p). [pre p, marker k]) kps)) = concat (map (\<lambda>(k, p). pre p @ marker k) kps)"
  by (induction kps) auto

lemma split_query_anonymous_items:
  assumes "split_query enc q = Inr parts" and "type_of_item (item (hd parts)) = TypeInt"
  shows "\<forall>k<length (butlast parts). item (butlast parts ! k) = ItemInt (int k)"
proof (intro allI impI)
  fix k
  assume k: "k < length (butlast parts)"
  then have ne: "butlast parts \<noteq> []"
    by (cases "butlast parts") simp_all
  then have "hd parts \<in> set (butlast parts)"
    by (cases parts) (auto split: if_splits)
  with split_query_same_type [OF assms(1)] assms(2)
  have "\<forall>p\<in>set (butlast parts). type_of_item (item p) = TypeInt"
    by (metis item_type.distinct(1))
  with k have "type_of_item (item (butlast parts ! k)) = TypeInt"
    by simp
  then obtain j where j: "item (butlast parts ! k) = ItemInt j"
    by (cases "item (butlast parts ! k)") simp_all
  have "butlast parts ! k = parts ! k"
    using k by (simp add: nth_butlast)
  with j split_query_index [OF assms(1) k] show "item (butlast parts ! k) = ItemInt (int k)"
    by simp
qed

lemma split_query_nonempty:
  assumes "split_query enc q = Inr parts"
  shows "parts \<noteq> []" and "length (butlast parts) = length (placeholders q)"
proof -
  from assms obtain mid t' where "parts = mid @ [QueryPart t' (ItemInt 0) TEXT]"
    and "length mid = length (placeholders q)"
    by (rule split_query_Inr)
  then show "parts \<noteq> []" and "length (butlast parts) = length (placeholders q)"
    by simp_all
qed

lemma shift_simps [simp]:
  "group0 (shift k m) = group0 m" "group1 (shift k m) = group1 m"
  "fst (span0 (shift k m)) = fst (span0 m) + k" "snd (span0 (shift k m)) = snd (span0 m) + k"
  by (simp_all add: shift_def)

lemma finditer_from_shift:
  "finditer_from (pos + k) s = map (shift k) (finditer_from pos s)"
proof (induction pos s rule: finditer_from.induct)
  case (1 pos s)
  show ?case
  proof (cases "s = []")
    case True
    then show ?thesis
      by (simp add: finditer_from.simps)
  next
    case False
    show ?thesis
    proof (cases "re_placeholder_match s")
      case None
      have "finditer_from (pos + k) s = finditer_from (pos + k + 1) (tl s)"
        using False None by (subst finditer_from.simps) simp
      also have "\<dots> = map (shift k) (finditer_from (pos + 1) (tl s))"
        using "1.IH"(1) [OF False None] by (simp add: add.commute add.left_commute)
      also have "\<dots> = map (shift k) (finditer_from pos s)"
        using False None by (subst (2) finditer_from.simps) simp
      finally show ?thesis .
    next
      case (Some a)
      obtain g0 g1 where a: "a = (g0, g1)"
        by (cases a)
      have "finditer_from (pos + k) s =
          \<lparr>span0 = (pos + k, pos + k + length g0), group0 = g0, group1 = g1\<rparr>
            # finditer_from (pos + k + length g0) (drop (length g0) s)"
        using False Some a by (subst finditer_from.simps) simp
      also have "finditer_from (pos + k + length g0) (drop (length g0) s)
          = map (shift k) (finditer_from (pos + length g0) (drop (length g0) s))"
        using "1.IH"(2) [OF False Some a [symmetric]] by (simp add: add.commute add.left_commute)
      also have "\<lparr>span0 = (pos + k, pos + k + length g0), group0 = g0, group1 = g1\<rparr>
            # map (shift k) (finditer_from (pos + length g0) (drop (length g0) s))
          = map (shift k) (finditer_from pos s)"
        using False Some a by (subst (2) finditer_from.simps) (simp add: shift_def)
      finally show ?thesis .
    qed
  qed
qed

lemma re_placeholder_match_literal:
  "c \<noteq> CHR ''%'' \<Longrightarrow> re_placeholder_match (c # s) = None"
  by (cases s) simp_all

lemma finditer_from_literal:
  "CHR ''%'' \<notin> set lit \<Longrightarrow> finditer_from pos (lit @ s) = finditer_from (pos + length lit) s"
proof (induction lit arbitrary: pos)
  case Nil
  then show ?case by simp
next
  case (Cons c lit)
  then have "c \<noteq> CHR ''%''"
    by auto
  then have "re_placeholder_match (c # lit @ s) = None"
    by (rule re_placeholder_match_literal)
  then have "finditer_from pos ((c # lit) @ s) = finditer_from (pos + 1) (lit @ s)"
    by (subst finditer_from.simps) simp
  with Cons show ?case
    by simp
qed

lemma finditer_from_escape:
  "finditer_from pos (''%%'' @ s) =
     \<lparr>span0 = (pos, pos + 2), group0 = ''%%'', group1 = None\<rparr> # finditer_from (pos + 2) s"
  by (subst finditer_from.simps) (simp add: newline_def)

lemma tokens_from_shift:
  "tokens_from (pfx @ q) (cur + length pfx) (map (shift (length pfx)) ms)
     = map (\<lambda>x. (fst x, shift (length pfx) (snd x))) (tokens_from q cur ms)"
  by (induction ms arbitrary: cur) (simp_all add: slice_def)

lemma final_cur_shift:
  "final_cur (cur + k) (map (shift k) ms) = final_cur cur ms + k"
  by (induction ms arbitrary: cur) simp_all

lemma placeholder_error_shift:
  "placeholder_error enc (pfx @ q) (shift (length pfx) m) = placeholder_error enc q m"
proof -
  have "drop (fst (span0 (shift (length pfx) m))) (pfx @ q) = drop (fst (span0 m)) q"
    by simp
  then show ?thesis
    by (simp add: placeholder_error_def Let_def)
qed

lemma placeholder_item_shift:
  "placeholder_item enc i (shift k m) = placeholder_item enc i m"
  by (simp add: placeholder_item_def)

lemma split_rest_shift:
  "split_rest enc (pfx @ q) (map (\<lambda>x. (fst x, shift (length pfx) (snd x))) xs) t i ph rv
     = split_rest enc q xs t i ph rv"
proof (induction enc q xs t i ph rv rule: split_rest.induct)
  case (1 enc q t i phtype rv)
  show ?case by simp
next
  case (2 enc q lit m xs t i phtype rv)
  let ?f = "\<lambda>x. (fst x, shift (length pfx) (snd x))"
  show ?case
  proof (cases "group0 m = ''%%''")
    case True
    show ?thesis
    proof (cases xs)
      case Nil
      with True "2.IH"(1) [OF True Nil] show ?thesis
        by (simp add: split_rest_escape_last)
    next
      case (Cons x xs')
      have "split_rest enc (pfx @ q) (map ?f ((lit, m) # xs)) t i phtype rv
          = split_rest enc (pfx @ q) (map ?f ((lit @ ''%'' @ fst x, snd x) # xs')) t i phtype rv"
        using True Cons by (simp add: split_rest_escape_next)
      also have "\<dots> = split_rest enc q ((lit @ ''%'' @ fst x, snd x) # xs') t i phtype rv"
        by (rule "2.IH"(2) [OF True Cons])
      finally show ?thesis
        using True Cons by (simp add: split_rest_escape_next)
    qed
  next
    case False
    show ?thesis
    proof (cases "placeholder_error enc q m")
      case (Some e)
      then show ?thesis
        using False by (simp add: split_rest_placeholder placeholder_error_shift)
    next
      case None
      show ?thesis
      proof (cases "placeholder_item enc i m")
        case (Inl e)
        then show ?thesis
          using False None
          by (simp add: split_rest_placeholder placeholder_error_shift placeholder_item_shift)
      next
        case (Inr it)
        show ?thesis
        proof (cases "phtype \<noteq> None \<and> phtype \<noteq> Some (type_of_item it)")
          case True
          then show ?thesis
            using False None Inr
            by (simp add: split_rest_placeholder placeholder_error_shift placeholder_item_shift)
        next
          case ok: False
          have "split_rest enc (pfx @ q) (map ?f xs) t (i + 1) (Some (type_of_item it))
                 (rv @ [QueryPart lit it (Format_of_bool (last_slice (group0 m) = ''b''))])
              = split_rest enc q xs t (i + 1) (Some (type_of_item it))
                 (rv @ [QueryPart lit it (Format_of_bool (last_slice (group0 m) = ''b''))])"
            by (rule "2.IH"(3) [OF False None Inr ok])
          then show ?thesis
            using False None Inr ok
            by (auto simp: split_rest_placeholder placeholder_error_shift placeholder_item_shift)
        qed
      qed
    qed
  qed
qed

lemma split_rest_acc:
  "split_rest enc q xs t i ph (a @ rv) = on_parts (\<lambda>out. a @ out) (split_rest enc q xs t i ph rv)"
proof (induction enc q xs t i ph rv rule: split_rest.induct)
  case (1 enc q t i phtype rv)
  show ?case by simp
next
  case (2 enc q lit m xs t i phtype rv)
  show ?case
  proof (cases "group0 m = ''%%''")
    case True
    show ?thesis
    proof (cases xs)
      case Nil
      with True "2.IH"(1) [OF True Nil] show ?thesis
        by (simp add: split_rest_escape_last)
    next
      case (Cons x xs')
      with True "2.IH"(2) [OF True Cons] show ?thesis
        by (simp add: split_rest_escape_next)
    qed
  next
    case False
    show ?thesis
    proof (cases "placeholder_error enc q m")
      case (Some e)
      then show ?thesis
        using False by (simp add: split_rest_placeholder)
    next
      case None
      show ?thesis
      proof (cases "placeholder_item enc i m")
        case (Inl e)
        then show ?thesis
          using False None by (simp add: split_rest_placeholder)
      next
        case (Inr it)
        show ?thesis
        proof (cases "phtype \<noteq> None \<and> phtype \<noteq> Some (type_of_item it)")
          case True
          then show ?thesis
            using False None Inr by (auto simp: split_rest_placeholder)
        next
          case ok: False
          let ?p = "QueryPart lit it (Format_of_bool (last_slice (group0 m) = ''b''))"
          have "split_rest enc q xs t (i + 1) (Some (type_of_item it)) (a @ rv @ [?p])
              = on_parts (\<lambda>out. a @ out)
                  (split_rest enc q xs t (i + 1) (Some (type_of_item it)) (rv @ [?p]))"
            by (rule "2.IH"(3) [OF False None Inr ok])
          then show ?thesis
            using False None Inr ok by (auto simp: split_rest_placeholder)
        qed
      qed
    qed
  qed
qed

lemma split_rest_prepend:
  "split_rest enc q ((l' @ fst x, snd x) # xs) t i ph []
     = on_parts (prepend l') (split_rest enc q (x # xs) t i ph [])"
proof (induction xs arbitrary: x rule: length_induct)
  case (1 xs)
  obtain lit m where x: "x = (lit, m)"
    by (cases x)
  show ?case
  proof (cases "group0 m = ''%%''")
    case True
    show ?thesis
    proof (cases xs)
      case Nil
      then show ?thesis
        using True x by (simp add: split_rest_escape_last prepend_def)
    next
      case (Cons y ys)
      have "length ys < length xs"
        using Cons by simp
      with "1.IH" have "split_rest enc q ((l' @ fst (lit @ ''%'' @ fst y, snd y), snd (lit @ ''%'' @ fst y, snd y)) # ys) t i ph []
          = on_parts (prepend l') (split_rest enc q ((lit @ ''%'' @ fst y, snd y) # ys) t i ph [])"
        by blast
      then show ?thesis
        using True x Cons by (simp add: split_rest_escape_next)
    qed
  next
    case False
    show ?thesis
    proof (cases "placeholder_error enc q m")
      case (Some e)
      then show ?thesis
        using False x by (simp add: split_rest_placeholder)
    next
      case None
      show ?thesis
      proof (cases "placeholder_item enc i m")
        case (Inl e)
        then show ?thesis
          using False None x by (simp add: split_rest_placeholder)
      next
        case (Inr it)
        let ?f = "Format_of_bool (last_slice (group0 m) = ''b'')"
        have a: "split_rest enc q xs t (i + 1) (Some (type_of_item it)) ([QueryPart (l' @ lit) it ?f] @ [])
            = on_parts (\<lambda>out. [QueryPart (l' @ lit) it ?f] @ out)
                (split_rest enc q xs t (i + 1) (Some (type_of_item it)) [])"
          by (rule split_rest_acc)
        have b: "split_rest enc q xs t (i + 1) (Some (type_of_item it)) ([QueryPart lit it ?f] @ [])
            = on_parts (\<lambda>out. [QueryPart lit it ?f] @ out)
                (split_rest enc q xs t (i + 1) (Some (type_of_item it)) [])"
          by (rule split_rest_acc)
        show ?thesis
          using False None Inr x a b
          by (cases "split_rest enc q xs t (i + 1) (Some (type_of_item it)) []")
             (auto simp: split_rest_placeholder prepend_def)
      qed
    qed
  qed
qed

lemma tokens_escape:
  assumes "CHR ''%'' \<notin> set lit"
  shows "tokens (lit @ ''%%'' @ rest) =
           (lit, \<lparr>span0 = (length lit, length lit + 2), group0 = ''%%'', group1 = None\<rparr>)
             # map (\<lambda>x. (fst x, shift (length (lit @ ''%%'')) (snd x))) (tokens rest)"
    and "trailer (lit @ ''%%'' @ rest) = trailer rest"
proof -
  let ?m = "\<lparr>span0 = (length lit, length lit + 2), group0 = ''%%'', group1 = None\<rparr>"
  let ?k = "length (lit @ ''%%'')"
  have f: "finditer (lit @ ''%%'' @ rest) = ?m # map (shift ?k) (finditer rest)"
    using finditer_from_literal [OF assms, of 0 "''%%'' @ rest"]
      finditer_from_escape [of "length lit" rest]
      finditer_from_shift [of 0 ?k rest]
    by (simp add: finditer_def)
  have t: "tokens_from ((lit @ ''%%'') @ rest) (0 + ?k) (map (shift ?k) (finditer rest))
      = map (\<lambda>x. (fst x, shift ?k (snd x))) (tokens_from rest 0 (finditer rest))"
    by (rule tokens_from_shift)
  show "tokens (lit @ ''%%'' @ rest) =
           (lit, ?m) # map (\<lambda>x. (fst x, shift ?k (snd x))) (tokens rest)"
    unfolding tokens_def f using t by (simp add: slice_def)
  have "final_cur (0 + ?k) (map (shift ?k) (finditer rest)) = final_cur 0 (finditer rest) + ?k"
    by (rule final_cur_shift)
  then show "trailer (lit @ ''%%'' @ rest) = trailer rest"
    unfolding trailer_def f by simp
qed

lemma split_query_escape:
  assumes "CHR ''%'' \<notin> set lit"
  shows "split_query enc (lit @ ''%%'' @ rest)
           = on_parts (prepend (lit @ ''%'')) (split_query enc rest)"
proof -
  let ?m = "\<lparr>span0 = (length lit, length lit + 2), group0 = ''%%'', group1 = None\<rparr>"
  let ?k = "length (lit @ ''%%'')"
  let ?f = "\<lambda>x. (fst x, shift ?k (snd x))"
  let ?Q = "lit @ ''%%'' @ rest"
  have Q: "?Q = (lit @ ''%%'') @ rest"
    by simp
  have start: "split_query enc ?Q
      = split_rest enc ?Q ((lit, ?m) # map ?f (tokens rest)) (trailer rest) 0 None []"
    unfolding split_query_eq tokens_escape [OF assms] ..
  show ?thesis
  proof (cases "tokens rest")
    case Nil
    then show ?thesis
      unfolding start by (simp add: split_query_eq split_rest_escape_last prepend_def)
  next
    case (Cons x xs)
    have "split_rest enc ?Q ((lit, ?m) # map ?f (tokens rest)) (trailer rest) 0 None []
        = split_rest enc ?Q (map ?f (((lit @ ''%'') @ fst x, snd x) # xs)) (trailer rest) 0 None []"
      using Cons by (simp add: split_rest_escape_next)
    also have "\<dots> = split_rest enc rest (((lit @ ''%'') @ fst x, snd x) # xs) (trailer rest) 0 None []"
      unfolding Q by (rule split_rest_shift)
    also have "\<dots> = on_parts (prepend (lit @ ''%'')) (split_rest enc rest (x # xs) (trailer rest) 0 None [])"
      by (rule split_rest_prepend)
    finally show ?thesis
      unfolding start using Cons by (simp add: split_query_eq)
  qed
qed

lemma split_query_done:
  "split_query ascii '' done'' = Inr [QueryPart '' done'' (ItemInt 0) TEXT]"
  by code_simp

lemma split_query_escaped_placeholder:
  "split_query ascii ''100%% of %s'' =
     Inr [QueryPart ''100% of '' (ItemInt 0) TEXT, QueryPart [] (ItemInt 0) TEXT]"
  by code_simp

lemma dump_with_types_ok:
  "i + length ps \<le> length fmts \<Longrightarrow>
   dump_with_types tx fmts ps i accp acct =
     (None, accp @ dumped tx (drop i fmts) ps, acct @ dumped_oids tx (drop i fmts) ps)"
proof (induction ps arbitrary: i accp acct)
  case Nil
  then show ?case by (simp add: dumped_def dumped_oids_def)
next
  case (Cons p ps)
  then have i: "i < length fmts" and rest: "(i + 1) + length ps \<le> length fmts"
    by simp_all
  have d: "drop i fmts = fmts ! i # drop (i + 1) fmts"
    using i by (simp add: Cons_nth_drop_Suc)
  show ?case
  proof (cases p)
    case None
    then show ?thesis
      using Cons.IH [OF rest] d by (simp add: dumped_def dumped_oids_def)
  next
    case (Some v)
    then show ?thesis
      using Cons.IH [OF rest] d i by (simp add: dumped_def dumped_oids_def Let_def)
  qed
qed

lemma dump_without_types_ok:
  "i + length ps \<le> length fmts \<Longrightarrow>
   dump_without_types tx fmts ps i accp = (None, accp @ dumped tx (drop i fmts) ps)"
proof (induction ps arbitrary: i accp)
  case Nil
  then show ?case by (simp add: dumped_def)
next
  case (Cons p ps)
  then have i: "i < length fmts" and rest: "(i + 1) + length ps \<le> length fmts"
    by simp_all
  have d: "drop i fmts = fmts ! i # drop (i + 1) fmts"
    using i by (simp add: Cons_nth_drop_Suc)
  show ?case
  proof (cases p)
    case None
    then show ?thesis
      using Cons.IH [OF rest] d by (simp add: dumped_def)
  next
    case (Some v)
    then show ?thesis
      using Cons.IH [OF rest] d i by (simp add: dumped_def Let_def)
  qed
qed

lemma dump_keeps_types:
  assumes "types self \<noteq> None"
  shows "types (snd (dump tx (Some vars) self)) = types self"
  using assms
  by (auto simp: dump_def split: option.splits sum.splits prod.splits)

lemma dump_ok:
  assumes "priv_parts self = Some parts"
    and "validate_and_reorder_params parts vars (priv_order self) = Inr ps"
    and "formats self = Some fmts" and "length ps \<le> length fmts"
  shows "dump tx (Some vars) self =
     (None, if types self = None
            then self\<lparr>params := Some (dumped tx fmts ps), types := Some (dumped_oids tx fmts ps)\<rparr>
            else self\<lparr>params := Some (dumped tx fmts ps)\<rparr>)"
  using assms dump_with_types_ok [of 0 ps fmts tx "[]" "[]"]
    dump_without_types_ok [of 0 ps fmts tx "[]"]
  by (simp add: dump_def)

lemma query2pg_one_anonymous:
  "query2pg (QBytes ''select %s'') ascii =
     Inr (''select $1'', [TEXT], None,
          [QueryPart ''select '' (ItemInt 0) TEXT, QueryPart [] (ItemInt 0) TEXT])"
  by code_simp

lemma format_d_1: "format_d 1 = ''1''" "format_d 2 = ''2''"
  by code_simp+

lemma convert_prepared:
  "convert int_transformer (QBytes ''select %s'') (Some (Sequence [Some 1])) init = (None, prepared)"
  by (simp add: convert_def int_transformer_def query2pg_one_anonymous dump_def
      validate_and_reorder_params_def init_def prepared_def format_d_1)

lemma validate_prepared:
  "validate_and_reorder_params
     [QueryPart ''select '' (ItemInt 0) TEXT, QueryPart [] (ItemInt 0) TEXT]
     (Sequence [Some (2::int)]) (None :: string list option) = Inr [Some 2]"
  by (simp add: validate_and_reorder_params_def)

lemma add_new_prefix: "\<exists>zs. add_new seen xs = seen @ zs"
proof (induction xs arbitrary: seen)
  case Nil
  show ?case by simp
next
  case (Cons x xs)
  show ?case
  proof (cases "x \<in> set seen")
    case True
    with Cons [of seen] show ?thesis by simp
  next
    case False
    from Cons [of "seen @ [x]"] obtain zs where "add_new (seen @ [x]) xs = (seen @ [x]) @ zs"
      by blast
    with False show ?thesis by simp
  qed
qed

lemma add_new_distinct: "distinct seen \<Longrightarrow> distinct (add_new seen xs)"
  by (induction xs arbitrary: seen) simp_all

lemma index_of_append: "x \<in> set xs \<Longrightarrow> index_of x (xs @ ys) = index_of x xs"
  by (induction xs) auto

lemma index_of_new: "x \<notin> set xs \<Longrightarrow> index_of x (xs @ x # ys) = length xs"
  by (induction xs) auto

lemma index_of_less: "x \<in> set xs \<Longrightarrow> index_of x xs < length xs"
  by (induction xs) auto

lemma nth_index_of: "x \<in> set xs \<Longrightarrow> xs ! index_of x xs = x"
  by (induction xs) auto

lemma length_seen_of: "length fmts = length ord \<Longrightarrow> length (seen_of ord fmts) = length ord"
  by (simp add: seen_of_def)

lemma map_of_seen_of_None:
  "length fmts = length ord \<Longrightarrow> n \<notin> set ord \<Longrightarrow> map_of (seen_of ord fmts) n = None"
  by (simp add: seen_of_def map_of_zip_is_None)

lemma map_of_seen_of_Some:
  assumes "length fmts = length ord" and "distinct ord" and "n \<in> set ord"
  shows "map_of (seen_of ord fmts) n = Some (marker (index_of n ord), fmts ! index_of n ord)"
proof -
  let ?k = "index_of n ord"
  have k: "?k < length ord" and n: "ord ! ?k = n"
    using assms(3) by (simp_all add: index_of_less nth_index_of)
  have "map_of (zip ord (zip (map marker [0..<length ord]) fmts)) (ord ! ?k)
      = Some (zip (map marker [0..<length ord]) fmts ! ?k)"
    using assms(1,2) k by (intro map_of_zip_nth) simp_all
  then show ?thesis
    using k assms(1) n by (simp add: seen_of_def)
qed

lemma seen_of_snoc:
  "length fmts = length ord \<Longrightarrow>
   seen_of (ord @ [n]) (fmts @ [f]) = seen_of ord fmts @ [(n, marker (length ord), f)]"
  by (simp add: seen_of_def)

lemma named_loop_ok:
  assumes "length fmts = length ord" and "distinct ord"
    and "\<forall>p\<in>set xs. type_of_item (item p) = TypeStr"
    and "\<forall>p\<in>set xs. \<forall>n. item p = ItemStr n \<longrightarrow> n \<in> set ord \<longrightarrow> format p = fmts ! index_of n ord"
    and "\<forall>p\<in>set xs. \<forall>p'\<in>set xs. item p = item p' \<longrightarrow> format p = format p'"
  shows "named_loop xs (seen_of ord fmts) ord chunks fmts =
     Inr (chunks @ concat (map (\<lambda>p. [pre p, named_marker (add_new ord (part_names xs)) p]) xs),
          fmts @ map (\<lambda>n. format_of_name n xs) (drop (length ord) (add_new ord (part_names xs))),
          add_new ord (part_names xs))"
  using assms
proof (induction xs arbitrary: ord fmts chunks)
  case Nil
  then show ?case by simp
next
  case (Cons p rest)
  have "type_of_item (item p) = TypeStr"
    using Cons.prems(3) by (meson list.set_intros(1))
  then obtain n where n: "item p = ItemStr n"
    by (cases "item p") simp_all
  let ?ord' = "add_new ord (part_names (p # rest))"
  obtain zs where zs: "?ord' = ord @ zs"
    using add_new_prefix by blast
  have d': "distinct ?ord'"
    using Cons.prems(2) by (rule add_new_distinct)
  have rest_ty: "\<forall>p\<in>set rest. type_of_item (item p) = TypeStr"
    using Cons.prems(3) by (meson list.set_intros(2))
  have rest_same: "\<forall>p\<in>set rest. \<forall>p'\<in>set rest. item p = item p' \<longrightarrow> format p = format p'"
    using Cons.prems(5) by (meson list.set_intros(2))
  show ?case
  proof (cases "n \<in> set ord")
    case True
    let ?k = "index_of n ord"
    have seen: "map_of (seen_of ord fmts) n = Some (marker ?k, fmts ! ?k)"
      using Cons.prems(1,2) True by (rule map_of_seen_of_Some)
    have fp: "format p = fmts ! ?k"
      using Cons.prems(4) n True by (meson list.set_intros(1))
    have ord': "?ord' = add_new ord (part_names rest)"
      using n True by simp
    have rest_known: "\<forall>p\<in>set rest. \<forall>n. item p = ItemStr n \<longrightarrow> n \<in> set ord
        \<longrightarrow> format p = fmts ! index_of n ord"
      using Cons.prems(4) by (meson list.set_intros(2))
    have step: "named_loop (p # rest) (seen_of ord fmts) ord chunks fmts
        = named_loop rest (seen_of ord fmts) ord (chunks @ [pre p, marker ?k]) fmts"
      using n seen fp by simp
    have IH: "named_loop rest (seen_of ord fmts) ord (chunks @ [pre p, marker ?k]) fmts =
       Inr ((chunks @ [pre p, marker ?k])
              @ concat (map (\<lambda>p. [pre p, named_marker ?ord' p]) rest),
            fmts @ map (\<lambda>n. format_of_name n rest) (drop (length ord) ?ord'),
            ?ord')"
      unfolding ord'
      by (rule Cons.IH [OF Cons.prems(1,2) rest_ty rest_known rest_same])
    have mk: "named_marker ?ord' p = marker ?k"
      using n True unfolding zs by (simp add: named_marker_def index_of_append)
    have "n \<notin> set zs"
      using d' True unfolding zs by auto
    then have fm: "map (\<lambda>n. format_of_name n (p # rest)) zs = map (\<lambda>n. format_of_name n rest) zs"
      using n by (intro map_cong) auto
    have dr: "drop (length ord) ?ord' = zs"
      unfolding zs by simp
    show ?thesis
      unfolding step IH dr using mk fm by simp
  next
    case False
    let ?ord1 = "ord @ [n]" and ?fmts1 = "fmts @ [format p]"
    have seen: "map_of (seen_of ord fmts) n = None"
      using Cons.prems(1) False by (rule map_of_seen_of_None)
    have len: "length (seen_of ord fmts) = length ord"
      using Cons.prems(1) by (rule length_seen_of)
    have ph: "''$'' @ format_d (int (length (seen_of ord fmts)) + 1) = marker (length ord)"
      unfolding len by (simp add: marker_def)
    have seen1: "seen_of ord fmts @ [(n, marker (length ord), format p)] = seen_of ?ord1 ?fmts1"
      using Cons.prems(1) by (simp add: seen_of_snoc)
    have step: "named_loop (p # rest) (seen_of ord fmts) ord chunks fmts
        = named_loop rest (seen_of ?ord1 ?fmts1) ?ord1 (chunks @ [pre p, marker (length ord)]) ?fmts1"
      using n seen ph seen1 by (simp add: Let_def)
    have ord': "?ord' = add_new ?ord1 (part_names rest)"
      using n False by simp
    have l1: "length ?fmts1 = length ?ord1"
      using Cons.prems(1) by simp
    have d1: "distinct ?ord1"
      using Cons.prems(2) False by simp
    have rest_known: "\<forall>q\<in>set rest. \<forall>m. item q = ItemStr m \<longrightarrow> m \<in> set ?ord1
        \<longrightarrow> format q = ?fmts1 ! index_of m ?ord1"
    proof (intro ballI allI impI)
      fix q m
      assume q: "q \<in> set rest" and m: "item q = ItemStr m" and mo: "m \<in> set ?ord1"
      show "format q = ?fmts1 ! index_of m ?ord1"
      proof (cases "m \<in> set ord")
        case True
        then have "index_of m ?ord1 = index_of m ord" and "index_of m ord < length ord"
          by (simp_all add: index_of_append index_of_less)
        then have "?fmts1 ! index_of m ?ord1 = fmts ! index_of m ord"
          using Cons.prems(1) by (simp add: nth_append)
        moreover have "format q = fmts ! index_of m ord"
          using Cons.prems(4) q m True by (meson list.set_intros(2))
        ultimately show ?thesis by simp
      next
        case notin: False
        with mo have mn: "m = n" by simp
        then have "index_of m ?ord1 = length ord"
          using False index_of_new [of n ord "[]"] by simp
        then have "?fmts1 ! index_of m ?ord1 = format p"
          using Cons.prems(1) by (simp add: nth_append)
        moreover have "item q = item p"
          using m mn n by simp
        then have "format q = format p"
          using Cons.prems(5) q by (meson list.set_intros)
        ultimately show ?thesis by simp
      qed
    qed
    have IH: "named_loop rest (seen_of ?ord1 ?fmts1) ?ord1 (chunks @ [pre p, marker (length ord)]) ?fmts1 =
       Inr ((chunks @ [pre p, marker (length ord)])
              @ concat (map (\<lambda>p. [pre p, named_marker ?ord' p]) rest),
            ?fmts1 @ map (\<lambda>n. format_of_name n rest) (drop (length ?ord1) ?ord'),
            ?ord')"
      unfolding ord'
      by (rule Cons.IH [OF l1 d1 rest_ty rest_known rest_same])
    obtain zs1 where zs1: "?ord' = ?ord1 @ zs1"
      unfolding ord' using add_new_prefix by blast
    have mk: "named_marker ?ord' p = marker (length ord)"
      using n False unfolding zs1 by (simp add: named_marker_def index_of_new)
    have "n \<notin> set zs1"
      using d' unfolding zs1 by auto
    then have fm: "map (\<lambda>n. format_of_name n (p # rest)) zs1 = map (\<lambda>n. format_of_name n rest) zs1"
      using n by (intro map_cong) auto
    have dr1: "drop (length ?ord1) ?ord' = zs1"
      unfolding zs1 by simp
    have dr: "drop (length ord) ?ord' = n # zs1"
      unfolding zs1 by simp
    show ?thesis
      unfolding step IH dr dr1 using mk fm n by simp
  qed
qed

lemma add_new_set: "set (add_new seen xs) = set seen \<union> set xs"
  by (induction xs arbitrary: seen) auto

lemma first_occurrences_props:
  "distinct (first_occurrences xs)" "set (first_occurrences xs) = set xs"
  by (simp_all add: first_occurrences_def add_new_distinct add_new_set)

lemma concat_named_chunks:
  "concat (concat (map (\<lambda>p. [pre p, f p]) ps)) = concat (map (\<lambda>p. pre p @ f p) ps)"
  by (induction ps) auto

lemma split_query_named_items:
  assumes "split_query enc q = Inr parts" and "type_of_item (item (hd parts)) = TypeStr"
  shows "butlast parts \<noteq> []" and "\<forall>p\<in>set (butlast parts). type_of_item (item p) = TypeStr"
proof -
  from assms(1) obtain mid t' where parts: "parts = mid @ [QueryPart t' (ItemInt 0) TEXT]"
    by (rule split_query_Inr)
  have bl: "butlast parts = mid"
    unfolding parts by simp
  show ne: "butlast parts \<noteq> []"
  proof
    assume "butlast parts = []"
    then have "parts = [QueryPart t' (ItemInt 0) TEXT]"
      using bl parts by simp
    with assms(2) show False by simp
  qed
  then have "hd parts \<in> set (butlast parts)"
    unfolding bl parts by (cases mid) simp_all
  with split_query_same_type [OF assms(1)] assms(2)
  show "\<forall>p\<in>set (butlast parts). type_of_item (item p) = TypeStr"
    by (metis item_type.distinct(1))
qed

lemma rewrite_parts_named_ok:
  fixes parts :: "'a QueryPart list"
  assumes "butlast parts \<noteq> []"
    and "\<forall>p\<in>set (butlast parts). type_of_item (item p) = TypeStr"
    and "\<forall>p\<in>set (butlast parts). \<forall>p'\<in>set (butlast parts). item p = item p' \<longrightarrow> format p = format p'"
  shows "rewrite_parts parts =
     Inr (concat (map (\<lambda>p. pre p @ named_marker (first_occurrences (part_names (butlast parts))) p)
                   (butlast parts)) @ pre (last parts),
          map (\<lambda>n. format_of_name n (butlast parts)) (first_occurrences (part_names (butlast parts))),
          Some (first_occurrences (part_names (butlast parts))), parts)"
proof -
  let ?names = "first_occurrences (part_names (butlast parts))"
  from assms(1) obtain p0 ps where parts: "parts = p0 # ps"
    by (cases parts) simp_all
  have "p0 \<in> set (butlast parts)"
    using assms(1) unfolding parts by (cases ps) simp_all
  with assms(2) have "type_of_item (item p0) = TypeStr"
    by blast
  then obtain s0 where s0: "item p0 = ItemStr s0"
    by (cases "item p0") simp_all
  have l0: "length ([] :: Format list) = length ([] :: 'a list)"
    by simp
  have d0: "distinct ([] :: 'a list)"
    by simp
  have known: "\<forall>p\<in>set (butlast parts). \<forall>n. item p = ItemStr n \<longrightarrow> n \<in> set ([] :: 'a list)
      \<longrightarrow> format p = ([] :: Format list) ! index_of n []"
    by simp
  have "named_loop (butlast parts) (seen_of [] []) [] [] [] =
     Inr ([] @ concat (map (\<lambda>p. [pre p, named_marker (add_new [] (part_names (butlast parts))) p])
                         (butlast parts)),
          [] @ map (\<lambda>n. format_of_name n (butlast parts))
                 (drop (length ([] :: 'a list)) (add_new [] (part_names (butlast parts)))),
          add_new [] (part_names (butlast parts)))"
    by (rule named_loop_ok [OF l0 d0 assms(2) known assms(3)])
  then have loop: "named_loop (butlast parts) [] [] [] [] =
     Inr (concat (map (\<lambda>p. [pre p, named_marker ?names p]) (butlast parts)),
          map (\<lambda>n. format_of_name n (butlast parts)) ?names, ?names)"
    by (simp add: seen_of_def first_occurrences_def)
  show ?thesis
    unfolding rewrite_parts_def parts [symmetric]
    using loop s0 by (simp add: parts concat_named_chunks)
qed

lemma split_query_named_repeated:
  "split_query ascii ''select %(a)s, %(a)s, %(b)b'' =
     Inr [QueryPart ''select '' (ItemStr ''a'') TEXT, QueryPart '', '' (ItemStr ''a'') TEXT,
          QueryPart '', '' (ItemStr ''b'') BINARY, QueryPart [] (ItemInt 0) TEXT]"
  by code_simp

lemma unescaped_closed_Nil: "unescaped (closed_pairs [] t) = [t]"
  by (simp add: closed_pairs_def)

lemma unescaped_closed_escape:
  "group0 m = ''%%'' \<Longrightarrow>
   unescaped (closed_pairs ((lit, m) # xs) t) = join_first (lit @ ''%'') (unescaped (closed_pairs xs t))"
  by (simp add: closed_pairs_def)

lemma unescaped_closed_placeholder:
  "group0 m \<noteq> ''%%'' \<Longrightarrow>
   unescaped (closed_pairs ((lit, m) # xs) t) = lit # unescaped (closed_pairs xs t)"
  by (simp add: closed_pairs_def)

lemma unescaped_closed_nonempty: "unescaped (closed_pairs xs t) \<noteq> []"
proof (induction xs)
  case Nil
  show ?case by (simp add: unescaped_closed_Nil)
next
  case (Cons x xs)
  obtain lit m where x: "x = (lit, m)" by (cases x)
  show ?case
  proof (cases "group0 m = ''%%''")
    case True
    then show ?thesis
      unfolding x using Cons
      by (cases "unescaped (closed_pairs xs t)") (simp_all add: unescaped_closed_escape)
  next
    case False
    then show ?thesis
      unfolding x by (simp add: unescaped_closed_placeholder)
  qed
qed

lemma unescaped_closed_merged:
  "unescaped (closed_pairs ((l' @ fst x, snd x) # xs) t)
     = join_first l' (unescaped (closed_pairs (x # xs) t))"
proof -
  obtain lit m where x: "x = (lit, m)" by (cases x)
  show ?thesis
  proof (cases "group0 m = ''%%''")
    case True
    then show ?thesis
      unfolding x using unescaped_closed_nonempty [of xs t]
      by (cases "unescaped (closed_pairs xs t)") (simp_all add: unescaped_closed_escape)
  next
    case False
    then show ?thesis
      unfolding x by (simp add: unescaped_closed_placeholder)
  qed
qed

lemma split_rest_pre:
  assumes "split_rest enc q xs t i ph rv = Inr out"
  shows "map pre out = map pre rv @ unescaped (closed_pairs xs t)"
  using assms
proof (induction enc q xs t i ph rv arbitrary: out rule: split_rest.induct)
  case (1 enc q t i phtype rv)
  then show ?case by (auto simp: unescaped_closed_Nil)
next
  case (2 enc q lit m xs t i phtype rv)
  show ?case
  proof (cases "group0 m = ''%%''")
    case True
    show ?thesis
    proof (cases xs)
      case Nil
      have "split_rest enc q [] (lit @ ''%'' @ t) i phtype rv = Inr out"
        using "2.prems" True Nil by (simp add: split_rest_escape_last)
      from "2.IH"(1) [OF True Nil this] show ?thesis
        using True Nil by (simp add: unescaped_closed_escape unescaped_closed_Nil)
    next
      case (Cons x xs')
      have "split_rest enc q ((lit @ ''%'' @ fst x, snd x) # xs') t i phtype rv = Inr out"
        using "2.prems" True Cons by (simp add: split_rest_escape_next)
      from "2.IH"(2) [OF True Cons this]
      have "map pre out = map pre rv @ unescaped (closed_pairs (((lit @ ''%'') @ fst x, snd x) # xs') t)"
        by simp
      then show ?thesis
        unfolding unescaped_closed_merged using True Cons
        by (simp add: unescaped_closed_escape)
    qed
  next
    case False
    from "2.prems" False obtain it where
      pe: "placeholder_error enc q m = None" and pi: "placeholder_item enc i m = Inr it"
      and ok: "\<not> (phtype \<noteq> None \<and> phtype \<noteq> Some (type_of_item it))"
      and run: "split_rest enc q xs t (i + 1) (Some (type_of_item it))
             (rv @ [QueryPart lit it (Format_of_bool (last_slice (group0 m) = ''b''))]) = Inr out"
      by (auto simp: split_rest_placeholder split: option.splits sum.splits if_splits)
    from "2.IH"(3) [OF False pe pi ok run] show ?thesis
      using False by (simp add: unescaped_closed_placeholder)
  qed
qed

lemma split_query_pre:
  assumes "split_query enc q = Inr parts"
  shows "map pre parts = unescaped (split_pairs q)"
  using split_rest_pre [of enc q "tokens q" "trailer q" 0 None "[]" parts] assms
  by (simp add: split_query_eq split_pairs_eq)

lemma re_placeholder_match_prefix:
  assumes "re_placeholder_match s = Some (g0, g1)"
  shows "take (length g0) s = g0"
proof -
  from assms obtain p c t where 1: "s = p # c # t"
    by (cases s; cases "tl s") auto
  let ?name = "takeWhile (\<lambda>x. x \<noteq> CHR '')'') t"
  let ?after = "dropWhile (\<lambda>x. x \<noteq> CHR '')'') t"
  show ?thesis
  proof (cases "c = CHR ''('' \<and> ?name \<noteq> [] \<and> 2 \<le> length ?after \<and> ?after ! 1 \<noteq> newline")
    case True
    then have p: "p = CHR ''%''" and g0: "g0 = ''%('' @ ?name @ '')'' @ [?after ! 1]"
      using assms 1 by (auto simp: Let_def split: if_splits)
    from True obtain a b r where after: "?after = a # b # r"
      by (cases ?after; cases "tl ?after") auto
    have "a = CHR '')''"
      using hd_dropWhile [of "\<lambda>x. x \<noteq> CHR '')''" t] after by auto
    then have t: "t = ?name @ CHR '')'' # b # r"
      using takeWhile_dropWhile_id [of "\<lambda>x. x \<noteq> CHR '')''" t] after by simp
    have "s = g0 @ r"
      unfolding 1 g0 after using p True t after by simp
    then show ?thesis
      by simp
  next
    case False
    then have "g0 = [p, c]"
      using assms 1 by (auto simp: Let_def split: if_splits)
    then show ?thesis
      using 1 by simp
  qed
qed

lemma token_text_pair: "token_text (lit, m) = lit @ group0 m"
  by (simp add: token_text_def)

lemma tokens_cover_from:
  "cur \<le> pos \<Longrightarrow> s = drop pos q \<Longrightarrow>
   concat (map token_text (tokens_from q cur (finditer_from pos s)))
      @ drop (final_cur cur (finditer_from pos s)) q = drop cur q"
proof (induction pos s arbitrary: cur rule: finditer_from.induct)
  case (1 pos s)
  show ?case
  proof (cases "s = []")
    case True
    then show ?thesis
      by (simp add: finditer_from.simps)
  next
    case False
    show ?thesis
    proof (cases "re_placeholder_match s")
      case None
      have f: "finditer_from pos s = finditer_from (pos + 1) (tl s)"
        using False None by (subst finditer_from.simps) simp
      have "tl s = drop (pos + 1) q"
        using "1.prems"(2) by (simp add: drop_Suc tl_drop)
      with "1.IH"(1) [OF False None, of cur] "1.prems"(1) show ?thesis
        unfolding f by simp
    next
      case (Some a)
      obtain g0 g1 where a: "a = (g0, g1)"
        by (cases a)
      let ?n = "length g0"
      let ?m = "\<lparr>span0 = (pos, pos + ?n), group0 = g0, group1 = g1\<rparr>"
      have f: "finditer_from pos s = ?m # finditer_from (pos + ?n) (drop ?n s)"
        using False Some a by (subst finditer_from.simps) simp
      have pre: "take ?n s = g0"
        using Some a by (simp add: re_placeholder_match_prefix)
      have d: "drop ?n s = drop (pos + ?n) q"
        using "1.prems"(2) by (simp add: add.commute)
      have IH: "concat (map token_text (tokens_from q (pos + ?n) (finditer_from (pos + ?n) (drop ?n s))))
          @ drop (final_cur (pos + ?n) (finditer_from (pos + ?n) (drop ?n s))) q = drop (pos + ?n) q"
        by (rule "1.IH"(2) [OF False Some a [symmetric] order_refl d])
      have "slice q cur pos @ g0 @ drop (pos + ?n) q = drop cur q"
      proof -
        have "drop pos q = g0 @ drop (pos + ?n) q"
          using pre d "1.prems"(2) append_take_drop_id [of ?n s] by simp
        moreover have "drop cur q = take (pos - cur) (drop cur q) @ drop pos q"
          using "1.prems"(1) append_take_drop_id [of "pos - cur" "drop cur q"] by simp
        ultimately show ?thesis
          by (simp add: slice_def)
      qed
      then show ?thesis
        unfolding f using IH by (simp add: token_text_pair)
    qed
  qed
qed

lemma pairs_cover: "concat (map pair_text (split_pairs q)) = q"
proof -
  have "concat (map pair_text (closed_pairs xs t)) = concat (map token_text xs) @ t" for xs t
    by (induction xs) (simp_all add: closed_pairs_def pair_text_def token_text_def)
  then show ?thesis
    using tokens_cover_from [of 0 0 q q]
    by (simp add: split_pairs_eq tokens_def trailer_def finditer_def)
qed

lemma split_rest_all_escapes:
  assumes "\<forall>x\<in>set xs. group0 (snd x) = ''%%''"
  shows "split_rest enc q xs t i ph rv =
           Inr (rv @ [QueryPart (concat (unescaped (closed_pairs xs t))) (ItemInt 0) TEXT])"
  using assms
proof (induction xs arbitrary: t rule: length_induct)
  case (1 xs)
  show ?case
  proof (cases xs)
    case Nil
    then show ?thesis by (simp add: unescaped_closed_Nil)
  next
    case (Cons a xs1)
    obtain lit m where a: "a = (lit, m)" by (cases a)
    have m: "group0 m = ''%%''"
      using "1.prems" Cons a by simp
    show ?thesis
    proof (cases xs1)
      case Nil
      then show ?thesis
        using m Cons a
        by (simp add: split_rest_escape_last unescaped_closed_escape unescaped_closed_Nil)
    next
      case c2: (Cons x xs')
      let ?ys = "((lit @ ''%'') @ fst x, snd x) # xs'"
      have "length ?ys < length xs"
        using Cons c2 by simp
      moreover have "\<forall>y\<in>set ?ys. group0 (snd y) = ''%%''"
        using "1.prems" Cons c2 by simp
      ultimately have "split_rest enc q ?ys t i ph rv =
           Inr (rv @ [QueryPart (concat (unescaped (closed_pairs ?ys t))) (ItemInt 0) TEXT])"
        using "1.IH" by blast
      moreover have "unescaped (closed_pairs ?ys t) = unescaped (closed_pairs xs t)"
        unfolding unescaped_closed_merged using m Cons a c2
        by (simp add: unescaped_closed_escape)
      ultimately show ?thesis
        using m Cons a c2 by (simp add: split_rest_escape_next)
    qed
  qed
qed

lemma split_query_no_placeholders:
  assumes "placeholders q = []"
  shows "split_query enc q = Inr [QueryPart (concat (unescaped (split_pairs q))) (ItemInt 0) TEXT]"
proof -
  have "\<forall>m\<in>set (finditer q). \<not> not_escape m"
    using assms unfolding placeholders_def by (simp add: filter_empty_conv)
  then have "\<forall>x\<in>set (tokens q). group0 (snd x) = ''%%''"
    unfolding map_snd_tokens [symmetric] by (simp add: not_escape_def)
  then show ?thesis
    unfolding split_query_eq split_pairs_eq
    using split_rest_all_escapes [of "tokens q" enc q "trailer q" 0 None "[]"] by simp
qed

lemma query2pg_no_placeholders:
  assumes "placeholders q = []"
  shows "query2pg (QBytes q) enc =
     Inr (concat (unescaped (split_pairs q)), [], None,
          [QueryPart (concat (unescaped (split_pairs q))) (ItemInt 0) TEXT])"
  using split_query_no_placeholders [OF assms, of enc]
  by (simp add: query2pg_def query_bytes_def rewrite_parts_def)

lemma interleave_chunks:
  "length mks = length ps \<Longrightarrow>
   concat (concat (map2 (\<lambda>p mk. [pre p, mk]) ps mks)) @ t = interleave (map pre ps @ [t]) mks"
proof (induction ps arbitrary: mks)
  case Nil
  then show ?case by simp
next
  case (Cons p ps)
  then obtain mk mks' where "mks = mk # mks'" and "length mks' = length ps"
    by (cases mks) simp_all
  with Cons.IH [of mks'] show ?case by simp
qed

lemma positional_loop_markers:
  assumes "\<forall>k<length xs. item (xs ! k) = ItemInt (int (i + k))"
  shows "positional_loop xs chunks fmts =
           Inr (chunks @ concat (map2 (\<lambda>p mk. [pre p, mk]) xs (map marker [i..<i + length xs])),
                fmts @ map format xs)"
  using assms
proof (induction xs arbitrary: i chunks fmts)
  case Nil
  then show ?case by simp
next
  case (Cons p xs)
  have p: "item p = ItemInt (int i)"
    using Cons.prems by fastforce
  have rest: "\<forall>k<length xs. item (xs ! k) = ItemInt (int (Suc i + k))"
    using Cons.prems by fastforce
  have "i < i + length (p # xs)"
    by simp
  then have "[i..<i + length (p # xs)] = i # [Suc i..<i + length (p # xs)]"
    by (rule upt_conv_Cons)
  then have up: "[i..<i + length (p # xs)] = i # [Suc i..<Suc i + length xs]"
    by simp
  show ?case
    unfolding up using p Cons.IH [OF rest] by (simp add: marker_def add.commute)
qed

lemma named_loop_markers:
  assumes "named_loop xs seen ord chunks fmts = Inr (c, f, ord')"
    and "\<forall>e\<in>set seen. \<exists>k. fst (snd e) = marker k"
  shows "\<exists>mks. length mks = length xs \<and> (\<forall>mk\<in>set mks. \<exists>k. mk = marker k)
           \<and> c = chunks @ concat (map2 (\<lambda>p mk. [pre p, mk]) xs mks)"
  using assms
proof (induction xs arbitrary: seen ord chunks fmts)
  case Nil
  then show ?case by simp
next
  case (Cons p rest)
  from Cons.prems(1) obtain name where name: "item p = ItemStr name"
    by (cases "item p") simp_all
  show ?case
  proof (cases "map_of seen name")
    case None
    let ?ph = "''$'' @ format_d (int (length seen) + 1)"
    have ph: "?ph = marker (length seen)"
      by (simp add: marker_def)
    have run: "named_loop rest (seen @ [(name, ?ph, format p)]) (ord @ [name])
        (chunks @ [pre p, ?ph]) (fmts @ [format p]) = Inr (c, f, ord')"
      using Cons.prems(1) name None by (simp add: Let_def)
    have inv: "\<forall>e\<in>set (seen @ [(name, ?ph, format p)]). \<exists>k. fst (snd e) = marker k"
      using Cons.prems(2) ph by auto
    from Cons.IH [OF run inv] obtain mks where mks: "length mks = length rest"
      "\<forall>mk\<in>set mks. \<exists>k. mk = marker k"
      "c = (chunks @ [pre p, ?ph]) @ concat (map2 (\<lambda>p mk. [pre p, mk]) rest mks)"
      by blast
    have "length (?ph # mks) = length (p # rest)"
      using mks(1) by simp
    moreover have "\<forall>mk\<in>set (?ph # mks). \<exists>k. mk = marker k"
      using mks(2) ph by auto
    moreover have "c = chunks @ concat (map2 (\<lambda>p mk. [pre p, mk]) (p # rest) (?ph # mks))"
      using mks(3) by simp
    ultimately show ?thesis
      by blast
  next
    case (Some a)
    obtain ph fm where a: "a = (ph, fm)" by (cases a)
    have "(name, ph, fm) \<in> set seen"
      using Some a by (simp add: map_of_SomeD)
    with Cons.prems(2) obtain k where k: "ph = marker k"
      by fastforce
    have run: "named_loop rest seen ord (chunks @ [pre p, ph]) fmts = Inr (c, f, ord')"
      using Cons.prems(1) name Some a by (simp split: if_splits)
    from Cons.IH [OF run Cons.prems(2)] obtain mks where mks: "length mks = length rest"
      "\<forall>mk\<in>set mks. \<exists>k. mk = marker k"
      "c = (chunks @ [pre p, ph]) @ concat (map2 (\<lambda>p mk. [pre p, mk]) rest mks)"
      by blast
    have "length (ph # mks) = length (p # rest)"
      using mks(1) by simp
    moreover have "\<forall>mk\<in>set (ph # mks). \<exists>k. mk = marker k"
      using mks(2) k by auto
    moreover have "c = chunks @ concat (map2 (\<lambda>p mk. [pre p, mk]) (p # rest) (ph # mks))"
      using mks(3) by simp
    ultimately show ?thesis
      by blast
  qed
qed

lemma query2pg_interleaved:
  assumes "query2pg (QBytes q) enc = Inr (rq, fmts, ord, parts)"
  shows "\<exists>mks. length mks = length (placeholders q) \<and> (\<forall>mk\<in>set mks. \<exists>k. mk = marker k)
           \<and> rq = interleave (unescaped (split_pairs q)) mks"
proof -
  from query2pg_InrD [OF assms] have ok: "split_query enc q = Inr parts"
    and r: "rewrite_parts parts = Inr (rq, fmts, ord, parts)"
    by (simp_all add: query_bytes_def)
  note ne = split_query_nonempty [OF ok]
  from ne(1) obtain p0 ps where parts: "parts = p0 # ps"
    by (cases parts) simp_all
  have us: "unescaped (split_pairs q) = map pre (butlast parts) @ [pre (last parts)]"
    using split_query_pre [OF ok] ne(1)
    by (metis append_butlast_last_id list.simps(8) list.simps(9) map_append)
  have "\<exists>mks. length mks = length (butlast parts) \<and> (\<forall>mk\<in>set mks. \<exists>k. mk = marker k)
      \<and> rq = concat (concat (map2 (\<lambda>p mk. [pre p, mk]) (butlast parts) mks)) @ pre (last parts)"
  proof (cases "item p0")
    case (ItemInt n0)
    then have ty: "type_of_item (item (hd parts)) = TypeInt"
      using parts by simp
    have items: "\<forall>k<length (butlast parts). item (butlast parts ! k) = ItemInt (int (0 + k))"
      using split_query_anonymous_items [OF ok ty] by simp
    let ?mks = "map marker [0..<0 + length (butlast parts)]"
    have "positional_loop (butlast parts) [] [] =
        Inr ([] @ concat (map2 (\<lambda>p mk. [pre p, mk]) (butlast parts) ?mks),
             [] @ map format (butlast parts))"
      by (rule positional_loop_markers [OF items])
    then have "rq = concat (concat (map2 (\<lambda>p mk. [pre p, mk]) (butlast parts) ?mks))
        @ pre (last parts)"
      using r ItemInt unfolding rewrite_parts_def parts [symmetric]
      by (simp add: parts)
    moreover have "length ?mks = length (butlast parts)"
      by simp
    moreover have "\<forall>mk\<in>set ?mks. \<exists>k. mk = marker k"
      by auto
    ultimately show ?thesis
      by blast
  next
    case (ItemStr s0)
    from r ItemStr obtain c where loop: "named_loop (butlast parts) [] [] [] [] = Inr (c, fmts, the ord)"
      and rq: "rq = concat (c @ [pre (last parts)])"
      unfolding rewrite_parts_def parts [symmetric]
      by (auto simp: parts split: sum.splits prod.splits)
    have "\<forall>e\<in>set ([] :: ('a \<times> bytes \<times> Format) list). \<exists>k. fst (snd e) = marker k"
      by simp
    from named_loop_markers [OF loop this] obtain mks where "length mks = length (butlast parts)"
      "\<forall>mk\<in>set mks. \<exists>k. mk = marker k"
      "c = [] @ concat (map2 (\<lambda>p mk. [pre p, mk]) (butlast parts) mks)"
      by blast
    with rq show ?thesis
      by auto
  qed
  then obtain mks where mks: "length mks = length (butlast parts)"
    "\<forall>mk\<in>set mks. \<exists>k. mk = marker k"
    "rq = concat (concat (map2 (\<lambda>p mk. [pre p, mk]) (butlast parts) mks)) @ pre (last parts)"
    by blast
  have "rq = interleave (unescaped (split_pairs q)) mks"
    unfolding us mks(3) by (rule interleave_chunks [OF mks(1)])
  with mks(1,2) ne(2) show ?thesis
    by auto
qed

lemma split_query_escape_after_placeholder:
  "split_query ascii ''%s %% x %% %s'' =
     Inr [QueryPart [] (ItemInt 0) TEXT, QueryPart '' % x % '' (ItemInt 1) TEXT,
          QueryPart [] (ItemInt 0) TEXT]"
  by code_simp

lemma placeholders_only_escapes: "placeholders ''100%% done, 5%%'' = []"
  by code_simp

lemma unescaped_only_escapes:
  "concat (unescaped (split_pairs ''100%% done, 5%%'')) = ''100% done, 5%''"
  by code_simp

section \<open>The tokenizer\<close>

text \<open>
  Claim C3. The claim is that a query ending in a bare \<^verbatim>\<open>%\<close> is rejected. The pattern needs a
  byte after the \<^verbatim>\<open>%\<close>, so a \<^verbatim>\<open>%\<close> that ends the input is no match: it stays in the text of
  the closing part and the query is parsed and rewritten without an error, while the same
  \<^verbatim>\<open>%\<close> followed by a space is rejected as an incomplete placeholder.
\<close>

theorem trailing_percent_is_kept:
  "split_query ascii ''select 1 %'' = Inr [QueryPart ''select 1 %'' (ItemInt 0) TEXT]
   \<and> query2pg (QBytes ''select 1 %'' :: (string, unit) Query) ascii =
       Inr (''select 1 %'', [], None, [QueryPart ''select 1 %'' (ItemInt 0) TEXT])
   \<and> split_query ascii ''select 1 % 2'' = Inl (ProgrammingError IncompletePercent)"
proof (intro conjI)
  show "split_query ascii ''select 1 %'' = Inr [QueryPart ''select 1 %'' (ItemInt 0) TEXT]"
    by code_simp
  show "query2pg (QBytes ''select 1 %'' :: (string, unit) Query) ascii =
       Inr (''select 1 %'', [], None, [QueryPart ''select 1 %'' (ItemInt 0) TEXT])"
    by code_simp
  show "split_query ascii ''select 1 % 2'' = Inl (ProgrammingError IncompletePercent)"
    by code_simp
qed

text \<open>
  Claim C5. In a successfully parsed query the items of the parts before the closing one are all
  integers or all names, and an integer item is the index of its part, counted from zero.
  A query with both an anonymous and a named placeholder is never parsed; when every
  placeholder ends in a format character and every name is in the codec, the error is the
  ProgrammingError for mixed placeholders, and \<^verbatim>\<open>convert\<close> raises it for any parameters given.
\<close>

theorem placeholder_kinds_never_mixed:
  "(\<forall>parts. split_query enc q = Inr parts \<longrightarrow>
       ((\<forall>p\<in>set (butlast parts). type_of_item (item p) = TypeInt)
          \<or> (\<forall>p\<in>set (butlast parts). type_of_item (item p) = TypeStr))
       \<and> (\<forall>k<length (butlast parts). \<forall>j. item (parts ! k) = ItemInt j \<longrightarrow> j = int k))
   \<and> ((\<exists>m\<in>set (placeholders q). group1 m = None)
        \<and> (\<exists>m\<in>set (placeholders q). group1 m \<noteq> None) \<longrightarrow>
       isl (split_query enc q)
       \<and> ((\<forall>m\<in>set (placeholders q). accepted enc m) \<longrightarrow>
            split_query enc q = Inl (ProgrammingError CannotBeMixed)
            \<and> (\<forall>vars. convert \<lparr>encoding = enc, get_dumper = gd\<rparr> (QBytes q) (Some vars) self =
                  (Some (ProgrammingError CannotBeMixed), self))))"
proof (intro conjI allI impI)
  fix parts
  assume ok: "split_query enc q = Inr parts"
  show "(\<forall>p\<in>set (butlast parts). type_of_item (item p) = TypeInt)
          \<or> (\<forall>p\<in>set (butlast parts). type_of_item (item p) = TypeStr)"
    by (rule split_query_same_type [OF ok])
  fix k j
  assume "k < length (butlast parts)" and "item (parts ! k) = ItemInt j"
  then show "j = int k"
    by (rule split_query_index [OF ok])
next
  assume both: "(\<exists>m\<in>set (placeholders q). group1 m = None)
        \<and> (\<exists>m\<in>set (placeholders q). group1 m \<noteq> None)"
  then show "isl (split_query enc q)"
    using split_query_mixed(1) by blast
  assume acc: "\<forall>m\<in>set (placeholders q). accepted enc m"
  show mixed: "split_query enc q = Inl (ProgrammingError CannotBeMixed)"
    using both acc split_query_mixed(2) by blast
  fix vars :: "('a, 'b) Params"
  show "convert \<lparr>encoding = enc, get_dumper = gd\<rparr> (QBytes q) (Some vars) self =
      (Some (ProgrammingError CannotBeMixed), self)"
    by (rule convert_split_error) (simp add: mixed)
qed

theorem placeholder_kinds_never_mixed_witness:
  "split_query ascii ''select %s, %(a)s'' = Inl (ProgrammingError CannotBeMixed)
   \<and> convert \<lparr>encoding = ascii, get_dumper = (\<lambda>v f. \<lparr>dumper_dump = (\<lambda>v. ''1''), dumper_oid = 23\<rparr>)\<rparr>
        (QBytes ''select %s, %(a)s'') (Some (Sequence [Some (1::int), Some 2])) init
       = (Some (ProgrammingError CannotBeMixed), init)
   \<and> split_query ascii ''select %s, %s'' =
       Inr [QueryPart ''select '' (ItemInt 0) TEXT, QueryPart '', '' (ItemInt 1) TEXT,
            QueryPart [] (ItemInt 0) TEXT]
   \<and> ((\<forall>p\<in>set [QueryPart ''select '' (ItemInt 0) TEXT, QueryPart '', '' (ItemInt 1) TEXT :: string QueryPart].
           type_of_item (item p) = TypeInt)
        \<or> (\<forall>p\<in>set [QueryPart ''select '' (ItemInt 0) TEXT, QueryPart '', '' (ItemInt 1) TEXT :: string QueryPart].
           type_of_item (item p) = TypeStr))"
proof -
  have both: "(\<exists>m\<in>set (placeholders ''select %s, %(a)s''). group1 m = None)
        \<and> (\<exists>m\<in>set (placeholders ''select %s, %(a)s''). group1 m \<noteq> None)"
    using mixed_has_anonymous mixed_has_named unfolding list_ex_iff by blast
  have acc: "\<forall>m\<in>set (placeholders ''select %s, %(a)s''). accepted ascii m"
    using mixed_accepted unfolding list_all_iff .
  note a = placeholder_kinds_never_mixed [of ascii "''select %s, %(a)s''"
        "\<lambda>v f. \<lparr>dumper_dump = (\<lambda>v. ''1''), dumper_oid = 23\<rparr>" "init :: (string, int) PostgresQuery"]
  have 1: "split_query ascii ''select %s, %(a)s'' = Inl (ProgrammingError CannotBeMixed)"
    using a both acc by blast
  have 2: "convert \<lparr>encoding = ascii, get_dumper = (\<lambda>v f. \<lparr>dumper_dump = (\<lambda>v. ''1''), dumper_oid = 23\<rparr>)\<rparr>
        (QBytes ''select %s, %(a)s'') (Some (Sequence [Some (1::int), Some 2])) init
       = (Some (ProgrammingError CannotBeMixed), init)"
    using a both acc by blast
  note b = placeholder_kinds_never_mixed [of ascii "''select %s, %s''"]
  have 3: "(\<forall>p\<in>set (butlast [QueryPart ''select '' (ItemInt 0) TEXT, QueryPart '', '' (ItemInt 1) TEXT,
            QueryPart [] (ItemInt 0) TEXT :: string QueryPart]). type_of_item (item p) = TypeInt)
        \<or> (\<forall>p\<in>set (butlast [QueryPart ''select '' (ItemInt 0) TEXT, QueryPart '', '' (ItemInt 1) TEXT,
            QueryPart [] (ItemInt 0) TEXT :: string QueryPart]). type_of_item (item p) = TypeStr)"
    using b split_query_two_anonymous by blast
  have 4: "butlast [QueryPart ''select '' (ItemInt 0) TEXT, QueryPart '', '' (ItemInt 1) TEXT,
            QueryPart [] (ItemInt 0) TEXT :: string QueryPart]
         = [QueryPart ''select '' (ItemInt 0) TEXT, QueryPart '', '' (ItemInt 1) TEXT]"
    by simp
  show ?thesis
    using 1 2 3 split_query_two_anonymous unfolding 4 by blast
qed

text \<open>
  Claim C9. Every \<^verbatim>\<open>%%\<close> of every query becomes one literal \<^verbatim>\<open>%\<close> joined to the text around it,
  and takes no slot. The pairs of the first loop spell the query out, text and match in turn.
  The texts of the parts of a parsed query are the texts of these pairs with each \<^verbatim>\<open>%%\<close> pair
  turned into its text, one \<^verbatim>\<open>%\<close> and the text that follows. The number of parts before the
  closing one is the number of matches other than \<^verbatim>\<open>%%\<close>. The rewritten query is these texts
  with one marker after each but the last. A query whose matches are all \<^verbatim>\<open>%%\<close> is rewritten to
  that one text, with no formats and no name order. A query that starts with text free of
  \<^verbatim>\<open>%\<close>, then \<^verbatim>\<open>%%\<close>, is parsed as the rest of it is, with that text and one \<^verbatim>\<open>%\<close> put in
  front of the first part. In particular \<^verbatim>\<open>100%% done\<close> is rewritten to \<^verbatim>\<open>100% done\<close> with no
  formats and no name order.
\<close>

theorem escaped_percent_is_literal:
  "(\<forall>lit rest. CHR ''%'' \<notin> set lit \<longrightarrow>
       split_query enc (lit @ ''%%'' @ rest)
         = on_parts (prepend (lit @ ''%'')) (split_query enc rest))
   \<and> (\<forall>parts. split_query enc q = Inr parts \<longrightarrow>
         length (butlast parts) = length (placeholders q))
   \<and> query2pg (QBytes ''100%% done'' :: (string, unit) Query) ascii =
       Inr (''100% done'', [], None, [QueryPart ''100% done'' (ItemInt 0) TEXT])
   \<and> concat (map pair_text (split_pairs q)) = q
   \<and> (\<forall>parts. split_query enc q = Inr parts \<longrightarrow> map pre parts = unescaped (split_pairs q))
   \<and> (\<forall>rq fmts ord parts. query2pg (QBytes q) enc = Inr (rq, fmts, ord, parts) \<longrightarrow>
         map pre parts = unescaped (split_pairs q)
         \<and> (\<exists>mks. length mks = length (placeholders q) \<and> (\<forall>mk\<in>set mks. \<exists>k. mk = marker k)
                \<and> rq = interleave (unescaped (split_pairs q)) mks))
   \<and> (placeholders q = [] \<longrightarrow>
         query2pg (QBytes q) enc =
           Inr (concat (unescaped (split_pairs q)), [], None,
                [QueryPart (concat (unescaped (split_pairs q))) (ItemInt 0) TEXT]))
   \<and> query2pg (QBytes ''select %s, 100%% of %%%s%%'' :: (string, unit) Query) ascii =
       Inr (''select $1, 100% of %$2%'', [TEXT, TEXT], None,
            [QueryPart ''select '' (ItemInt 0) TEXT, QueryPart '', 100% of %'' (ItemInt 1) TEXT,
             QueryPart ''%'' (ItemInt 0) TEXT])
   \<and> query2pg (QBytes ''%(a)s %% %(a)s %%'' :: (string, unit) Query) ascii =
       Inr (''$1 % $1 %'', [TEXT], Some [''a''],
            [QueryPart [] (ItemStr ''a'') TEXT, QueryPart '' % '' (ItemStr ''a'') TEXT,
             QueryPart '' %'' (ItemInt 0) TEXT])"
proof (intro conjI allI impI)
  fix lit rest :: bytes
  assume "CHR ''%'' \<notin> set lit"
  then show "split_query enc (lit @ ''%%'' @ rest)
         = on_parts (prepend (lit @ ''%'')) (split_query enc rest)"
    by (rule split_query_escape)
next
  fix parts
  assume "split_query enc q = Inr parts"
  then show "length (butlast parts) = length (placeholders q)"
    by (rule split_query_nonempty(2))
next
  show "query2pg (QBytes ''100%% done'' :: (string, unit) Query) ascii =
       Inr (''100% done'', [], None, [QueryPart ''100% done'' (ItemInt 0) TEXT])"
    by code_simp
next
  show "concat (map pair_text (split_pairs q)) = q"
    by (rule pairs_cover)
next
  fix parts
  assume "split_query enc q = Inr parts"
  then show "map pre parts = unescaped (split_pairs q)"
    by (rule split_query_pre)
next
  fix rq fmts ord parts
  assume a: "query2pg (QBytes q) enc = Inr (rq, fmts, ord, parts)"
  from query2pg_InrD [OF a] have "split_query enc q = Inr parts"
    by (simp add: query_bytes_def)
  then show "map pre parts = unescaped (split_pairs q)"
    by (rule split_query_pre)
  show "\<exists>mks. length mks = length (placeholders q) \<and> (\<forall>mk\<in>set mks. \<exists>k. mk = marker k)
                \<and> rq = interleave (unescaped (split_pairs q)) mks"
    by (rule query2pg_interleaved [OF a])
next
  assume "placeholders q = []"
  then show "query2pg (QBytes q) enc =
           Inr (concat (unescaped (split_pairs q)), [], None,
                [QueryPart (concat (unescaped (split_pairs q))) (ItemInt 0) TEXT])"
    by (rule query2pg_no_placeholders)
next
  show "query2pg (QBytes ''select %s, 100%% of %%%s%%'' :: (string, unit) Query) ascii =
       Inr (''select $1, 100% of %$2%'', [TEXT, TEXT], None,
            [QueryPart ''select '' (ItemInt 0) TEXT, QueryPart '', 100% of %'' (ItemInt 1) TEXT,
             QueryPart ''%'' (ItemInt 0) TEXT])"
    by code_simp
next
  show "query2pg (QBytes ''%(a)s %% %(a)s %%'' :: (string, unit) Query) ascii =
       Inr (''$1 % $1 %'', [TEXT], Some [''a''],
            [QueryPart [] (ItemStr ''a'') TEXT, QueryPart '' % '' (ItemStr ''a'') TEXT,
             QueryPart '' %'' (ItemInt 0) TEXT])"
    by code_simp
qed

theorem escaped_percent_is_literal_witness:
  "CHR ''%'' \<notin> set ''100''
   \<and> split_query ascii (''100'' @ ''%%'' @ '' done'')
       = Inr [QueryPart ''100% done'' (ItemInt 0) TEXT]
   \<and> split_query ascii ''100%% of %s'' =
       Inr [QueryPart ''100% of '' (ItemInt 0) TEXT, QueryPart [] (ItemInt 0) TEXT]
   \<and> length (placeholders ''100%% of %s'') = 1
   \<and> split_query ascii ''%s %% x %% %s'' =
       Inr [QueryPart [] (ItemInt 0) TEXT, QueryPart '' % x % '' (ItemInt 1) TEXT,
            QueryPart [] (ItemInt 0) TEXT]
   \<and> unescaped (split_pairs ''%s %% x %% %s'') = [[], '' % x % '', []]
   \<and> placeholders ''100%% done, 5%%'' = []
   \<and> query2pg (QBytes ''100%% done, 5%%'' :: (string, unit) Query) ascii =
       Inr (''100% done, 5%'', [], None, [QueryPart ''100% done, 5%'' (ItemInt 0) TEXT])"
proof -
  have lit: "CHR ''%'' \<notin> set ''100''"
    by simp
  from escaped_percent_is_literal [of ascii]
  have "CHR ''%'' \<notin> set ''100'' \<longrightarrow>
       split_query ascii (''100'' @ ''%%'' @ '' done'')
         = on_parts (prepend (''100'' @ ''%'')) (split_query ascii '' done'')"
    by blast
  with lit have 1: "split_query ascii (''100'' @ ''%%'' @ '' done'')
       = Inr [QueryPart ''100% done'' (ItemInt 0) TEXT]"
    by (simp add: split_query_done prepend_def)
  from escaped_percent_is_literal [of ascii "''100%% of %s''"]
  have "split_query ascii ''100%% of %s'' =
         Inr [QueryPart ''100% of '' (ItemInt 0) TEXT, QueryPart [] (ItemInt 0) TEXT]
      \<longrightarrow> length (butlast [QueryPart ''100% of '' (ItemInt 0) TEXT,
              QueryPart [] (ItemInt 0) TEXT :: string QueryPart])
          = length (placeholders ''100%% of %s'')"
    by blast
  with split_query_escaped_placeholder have 2: "length (placeholders ''100%% of %s'') = 1"
    by simp
  from escaped_percent_is_literal [of ascii "''%s %% x %% %s''"]
  have "split_query ascii ''%s %% x %% %s'' =
       Inr [QueryPart [] (ItemInt 0) TEXT, QueryPart '' % x % '' (ItemInt 1) TEXT,
            QueryPart [] (ItemInt 0) TEXT]
      \<longrightarrow> map pre [QueryPart [] (ItemInt 0) TEXT, QueryPart '' % x % '' (ItemInt 1) TEXT,
            QueryPart [] (ItemInt 0) TEXT :: string QueryPart]
          = unescaped (split_pairs ''%s %% x %% %s'')"
    by blast
  with split_query_escape_after_placeholder
  have 3: "unescaped (split_pairs ''%s %% x %% %s'') = [[], '' % x % '', []]"
    by simp
  from escaped_percent_is_literal [of ascii "''100%% done, 5%%''", where 'b = unit]
  have "placeholders ''100%% done, 5%%'' = [] \<longrightarrow>
         query2pg (QBytes ''100%% done, 5%%'' :: (string, unit) Query) ascii =
           Inr (concat (unescaped (split_pairs ''100%% done, 5%%'')), [], None,
                [QueryPart (concat (unescaped (split_pairs ''100%% done, 5%%''))) (ItemInt 0) TEXT])"
    by blast
  with placeholders_only_escapes
  have 4: "query2pg (QBytes ''100%% done, 5%%'' :: (string, unit) Query) ascii =
       Inr (''100% done, 5%'', [], None, [QueryPart ''100% done, 5%'' (ItemInt 0) TEXT])"
    by (simp only: unescaped_only_escapes simp_thms)
  show ?thesis
    by (intro conjI)
       (rule lit 1 2 3 4 split_query_escaped_placeholder split_query_escape_after_placeholder
          placeholders_only_escapes)+
qed

section \<open>The rewriter\<close>

text \<open>
  Claim C1. For a query whose placeholders are named and give each name one format, the rewriter
  returns the names in the order of their first occurrence, each once; the part of a name gets
  the marker of the position of the name in that order, the same marker at every
  occurrence; the formats are those of the first occurrences, one for each name. In
  particular \<^verbatim>\<open>select %(a)s, %(a)s, %(b)b\<close> is rewritten to \<^verbatim>\<open>select $1, $1, $2\<close> with the formats
  Text, Binary and the name order a, b.
\<close>

theorem named_placeholders_numbered:
  "(\<forall>parts. split_query enc q = Inr parts \<and> type_of_item (item (hd parts)) = TypeStr
       \<and> (\<forall>p\<in>set (butlast parts). \<forall>p'\<in>set (butlast parts).
              item p = item p' \<longrightarrow> format p = format p') \<longrightarrow>
      (let names = first_occurrences (part_names (butlast parts))
       in query2pg (QBytes q) enc =
            Inr (concat (map (\<lambda>p. pre p @ named_marker names p) (butlast parts))
                   @ pre (last parts),
                 map (\<lambda>n. format_of_name n (butlast parts)) names, Some names, parts)
          \<and> distinct names \<and> set names = set (part_names (butlast parts))))
   \<and> query2pg (QBytes ''select %(a)s, %(a)s, %(b)b'' :: (string, unit) Query) ascii =
       Inr (''select $1, $1, $2'', [TEXT, BINARY], Some [''a'', ''b''],
            [QueryPart ''select '' (ItemStr ''a'') TEXT, QueryPart '', '' (ItemStr ''a'') TEXT,
             QueryPart '', '' (ItemStr ''b'') BINARY, QueryPart [] (ItemInt 0) TEXT])"
proof (intro conjI allI impI)
  fix parts :: "'a QueryPart list"
  assume a: "split_query enc q = Inr parts \<and> type_of_item (item (hd parts)) = TypeStr
       \<and> (\<forall>p\<in>set (butlast parts). \<forall>p'\<in>set (butlast parts).
              item p = item p' \<longrightarrow> format p = format p')"
  then have ok: "split_query enc q = Inr parts" and ty: "type_of_item (item (hd parts)) = TypeStr"
    and same: "\<forall>p\<in>set (butlast parts). \<forall>p'\<in>set (butlast parts).
              item p = item p' \<longrightarrow> format p = format p'"
    by blast+
  note named = split_query_named_items [OF ok ty]
  have r: "rewrite_parts parts =
     Inr (concat (map (\<lambda>p. pre p @ named_marker (first_occurrences (part_names (butlast parts))) p)
                   (butlast parts)) @ pre (last parts),
          map (\<lambda>n. format_of_name n (butlast parts)) (first_occurrences (part_names (butlast parts))),
          Some (first_occurrences (part_names (butlast parts))), parts)"
    by (rule rewrite_parts_named_ok [OF named same])
  have "query2pg (QBytes q) enc = rewrite_parts parts"
    using ok by (simp add: query2pg_def query_bytes_def)
  then show "let names = first_occurrences (part_names (butlast parts))
       in query2pg (QBytes q) enc =
            Inr (concat (map (\<lambda>p. pre p @ named_marker names p) (butlast parts))
                   @ pre (last parts),
                 map (\<lambda>n. format_of_name n (butlast parts)) names, Some names, parts)
          \<and> distinct names \<and> set names = set (part_names (butlast parts))"
    unfolding Let_def r using first_occurrences_props [of "part_names (butlast parts)"]
    by blast
next
  show "query2pg (QBytes ''select %(a)s, %(a)s, %(b)b'' :: (string, unit) Query) ascii =
       Inr (''select $1, $1, $2'', [TEXT, BINARY], Some [''a'', ''b''],
            [QueryPart ''select '' (ItemStr ''a'') TEXT, QueryPart '', '' (ItemStr ''a'') TEXT,
             QueryPart '', '' (ItemStr ''b'') BINARY, QueryPart [] (ItemInt 0) TEXT])"
    by code_simp
qed

theorem named_placeholders_numbered_witness:
  "split_query ascii ''select %(a)s, %(a)s, %(b)b'' =
     Inr [QueryPart ''select '' (ItemStr ''a'') TEXT, QueryPart '', '' (ItemStr ''a'') TEXT,
          QueryPart '', '' (ItemStr ''b'') BINARY, QueryPart [] (ItemInt 0) TEXT]
   \<and> type_of_item (item (hd [QueryPart ''select '' (ItemStr ''a'') TEXT,
          QueryPart '', '' (ItemStr ''a'') TEXT, QueryPart '', '' (ItemStr ''b'') BINARY,
          QueryPart [] (ItemInt 0) TEXT :: string QueryPart])) = TypeStr
   \<and> first_occurrences (part_names (butlast
         [QueryPart ''select '' (ItemStr ''a'') TEXT, QueryPart '', '' (ItemStr ''a'') TEXT,
          QueryPart '', '' (ItemStr ''b'') BINARY, QueryPart [] (ItemInt 0) TEXT])) = [''a'', ''b'']
   \<and> query2pg (QBytes ''select %(a)s, %(a)s, %(b)b'' :: (string, unit) Query) ascii =
       Inr (''select $1, $1, $2'', [TEXT, BINARY], Some [''a'', ''b''],
            [QueryPart ''select '' (ItemStr ''a'') TEXT, QueryPart '', '' (ItemStr ''a'') TEXT,
             QueryPart '', '' (ItemStr ''b'') BINARY, QueryPart [] (ItemInt 0) TEXT])"
proof -
  let ?parts = "[QueryPart ''select '' (ItemStr ''a'') TEXT, QueryPart '', '' (ItemStr ''a'') TEXT,
          QueryPart '', '' (ItemStr ''b'') BINARY, QueryPart [] (ItemInt 0) TEXT :: string QueryPart]"
  have ty: "type_of_item (item (hd ?parts)) = TypeStr"
    by simp
  have same: "\<forall>p\<in>set (butlast ?parts). \<forall>p'\<in>set (butlast ?parts).
              item p = item p' \<longrightarrow> format p = format p'"
    by simp
  have e1: "first_occurrences (part_names (butlast ?parts)) = [''a'', ''b'']"
    by code_simp
  have e2: "concat (map (\<lambda>p. pre p @ named_marker [''a'', ''b''] p) (butlast ?parts))
              @ pre (last ?parts) = ''select $1, $1, $2''"
    by code_simp
  have e3: "map (\<lambda>n. format_of_name n (butlast ?parts)) [''a'', ''b''] = [TEXT, BINARY]"
    by code_simp
  from named_placeholders_numbered [of ascii "''select %(a)s, %(a)s, %(b)b''", where 'b = unit]
  have "split_query ascii ''select %(a)s, %(a)s, %(b)b'' = Inr ?parts
       \<and> type_of_item (item (hd ?parts)) = TypeStr
       \<and> (\<forall>p\<in>set (butlast ?parts). \<forall>p'\<in>set (butlast ?parts).
              item p = item p' \<longrightarrow> format p = format p') \<longrightarrow>
      (let names = first_occurrences (part_names (butlast ?parts))
       in query2pg (QBytes ''select %(a)s, %(a)s, %(b)b'' :: (string, unit) Query) ascii =
            Inr (concat (map (\<lambda>p. pre p @ named_marker names p) (butlast ?parts))
                   @ pre (last ?parts),
                 map (\<lambda>n. format_of_name n (butlast ?parts)) names, Some names, ?parts)
          \<and> distinct names \<and> set names = set (part_names (butlast ?parts)))"
    by blast
  then have "let names = first_occurrences (part_names (butlast ?parts))
       in query2pg (QBytes ''select %(a)s, %(a)s, %(b)b'' :: (string, unit) Query) ascii =
            Inr (concat (map (\<lambda>p. pre p @ named_marker names p) (butlast ?parts))
                   @ pre (last ?parts),
                 map (\<lambda>n. format_of_name n (butlast ?parts)) names, Some names, ?parts)
          \<and> distinct names \<and> set names = set (part_names (butlast ?parts))"
    using split_query_named_repeated ty same by blast
  then have q: "query2pg (QBytes ''select %(a)s, %(a)s, %(b)b'' :: (string, unit) Query) ascii =
       Inr (''select $1, $1, $2'', [TEXT, BINARY], Some [''a'', ''b''], ?parts)"
    by (simp only: Let_def e1 e2 e3)
  show ?thesis
    by (intro conjI) (rule split_query_named_repeated ty e1 q)+
qed

text \<open>
  Claim C2. For a query whose placeholders are anonymous, the part with index \<open>k\<close> gets the marker
  of slot \<open>k\<close>, so the markers are \<^verbatim>\<open>$1\<close>, \<^verbatim>\<open>$2\<close>, ... in textual order and none is shared; the
  formats are those of the placeholders other than \<^verbatim>\<open>%%\<close>, one for each, in the same order; and
  there is no name order. In particular \<^verbatim>\<open>select %s, %s\<close> is rewritten to \<^verbatim>\<open>select $1, $2\<close> with
  the formats Text, Text.
\<close>

theorem anonymous_placeholders_numbered:
  "(\<forall>parts. split_query enc q = Inr parts \<and> type_of_item (item (hd parts)) = TypeInt \<longrightarrow>
      query2pg (QBytes q) enc =
        Inr (concat (map (\<lambda>(k, p). pre p @ marker k) (enumerate 0 (butlast parts)))
               @ pre (last parts),
             map match_format (placeholders q), None, parts)
      \<and> length (butlast parts) = length (placeholders q))
   \<and> query2pg (QBytes ''select %s, %s'') ascii =
       Inr (''select $1, $2'', [TEXT, TEXT], None,
            [QueryPart ''select '' (ItemInt 0) TEXT, QueryPart '', '' (ItemInt 1) TEXT,
             QueryPart [] (ItemInt 0) TEXT])"
proof (intro conjI allI impI)
  fix parts :: "'a QueryPart list"
  assume a: "split_query enc q = Inr parts \<and> type_of_item (item (hd parts)) = TypeInt"
  then have ok: "split_query enc q = Inr parts" and ty: "type_of_item (item (hd parts)) = TypeInt"
    by simp_all
  note ne = split_query_nonempty [OF ok]
  from ne(1) ty obtain p0 ps n0 where parts: "parts = p0 # ps" and p0: "item p0 = ItemInt n0"
    by (cases parts; cases "item (hd parts)") simp_all
  have items: "\<forall>k<length (butlast parts). item (butlast parts ! k) = ItemInt (int (0 + k))"
    using split_query_anonymous_items [OF ok ty] by simp
  have loop: "positional_loop (butlast parts) [] [] =
      Inr ([] @ concat (map (\<lambda>(k, p). [pre p, marker k]) (enumerate 0 (butlast parts))),
           [] @ map format (butlast parts))"
    by (rule positional_loop_indexed [OF items])
  have "rewrite_parts parts =
      Inr (concat (map (\<lambda>(k, p). pre p @ marker k) (enumerate 0 (butlast parts)))
               @ pre (last parts),
             map format (butlast parts), None, parts)"
    unfolding rewrite_parts_def using loop p0 by (simp add: parts concat_chunks)
  then show "query2pg (QBytes q) enc =
        Inr (concat (map (\<lambda>(k, p). pre p @ marker k) (enumerate 0 (butlast parts)))
               @ pre (last parts),
             map match_format (placeholders q), None, parts)"
    using ok by (simp add: query2pg_def query_bytes_def split_query_formats)
  show "length (butlast parts) = length (placeholders q)"
    by (rule ne(2))
next
  show "query2pg (QBytes ''select %s, %s'') ascii =
       Inr (''select $1, $2'', [TEXT, TEXT], None,
            [QueryPart ''select '' (ItemInt 0) TEXT, QueryPart '', '' (ItemInt 1) TEXT,
             QueryPart [] (ItemInt 0) TEXT])"
    by code_simp
qed

theorem anonymous_placeholders_numbered_witness:
  "split_query ascii ''select %s, %s'' =
     Inr [QueryPart ''select '' (ItemInt 0) TEXT, QueryPart '', '' (ItemInt 1) TEXT,
          QueryPart [] (ItemInt 0) TEXT]
   \<and> type_of_item (item (hd [QueryPart ''select '' (ItemInt 0) TEXT,
          QueryPart '', '' (ItemInt 1) TEXT, QueryPart [] (ItemInt 0) TEXT :: string QueryPart]))
       = TypeInt
   \<and> query2pg (QBytes ''select %s, %s'' :: (string, unit) Query) ascii =
       Inr (concat (map (\<lambda>(k, p). pre p @ marker k)
                    (enumerate 0 (butlast [QueryPart ''select '' (ItemInt 0) TEXT,
                       QueryPart '', '' (ItemInt 1) TEXT,
                       QueryPart [] (ItemInt 0) TEXT :: string QueryPart])))
              @ pre (last [QueryPart ''select '' (ItemInt 0) TEXT,
                       QueryPart '', '' (ItemInt 1) TEXT,
                       QueryPart [] (ItemInt 0) TEXT :: string QueryPart]),
            map match_format (placeholders ''select %s, %s''), None,
            [QueryPart ''select '' (ItemInt 0) TEXT, QueryPart '', '' (ItemInt 1) TEXT,
             QueryPart [] (ItemInt 0) TEXT])"
proof -
  let ?parts = "[QueryPart ''select '' (ItemInt 0) TEXT, QueryPart '', '' (ItemInt 1) TEXT,
          QueryPart [] (ItemInt 0) TEXT :: string QueryPart]"
  have ty: "type_of_item (item (hd ?parts)) = TypeInt"
    by simp
  from anonymous_placeholders_numbered [of ascii "''select %s, %s''", where 'b = unit]
  have imp: "split_query ascii ''select %s, %s'' = Inr ?parts \<and> type_of_item (item (hd ?parts)) = TypeInt
      \<longrightarrow> query2pg (QBytes ''select %s, %s'' :: (string, unit) Query) ascii =
        Inr (concat (map (\<lambda>(k, p). pre p @ marker k) (enumerate 0 (butlast ?parts)))
               @ pre (last ?parts),
             map match_format (placeholders ''select %s, %s''), None, ?parts)"
    by blast
  have q: "query2pg (QBytes ''select %s, %s'' :: (string, unit) Query) ascii =
        Inr (concat (map (\<lambda>(k, p). pre p @ marker k) (enumerate 0 (butlast ?parts)))
               @ pre (last ?parts),
             map match_format (placeholders ''select %s, %s''), None, ?parts)"
    by (rule mp [OF imp conjI [OF split_query_two_anonymous ty]])
  show ?thesis
    by (intro conjI) (rule split_query_two_anonymous ty q)+
qed

section \<open>The parameter reconciler\<close>

text \<open>
  Claim C6. For a query with named placeholders, rewritten to the name order \<open>names\<close>, and
  parameters given as a mapping: when some name of \<open>names\<close> is not a key of the mapping,
  reconciliation raises one ProgrammingError whose message lists the missing names, each
  once, sorted; when every name is a key, the result is the values of the mapping looked
  up in the order of \<open>names\<close>.
\<close>

theorem mapping_params_missing_names:
  assumes "query2pg query0 enc = Inr (q, fmts, Some names, parts)"
  shows "((\<exists>n\<in>set names. map_of m n = None) \<longrightarrow>
            validate_and_reorder_params parts (Mapping m) (Some names) =
              Inl (ProgrammingError
                    (ParameterMissing (sort (filter (\<lambda>n. map_of m n = None) names)))))
       \<and> ((\<forall>n\<in>set names. map_of m n \<noteq> None) \<longrightarrow>
            validate_and_reorder_params parts (Mapping m) (Some names) =
              Inr (map (\<lambda>n. the (map_of m n)) names))
       \<and> distinct names"
proof -
  have r: "rewrite_parts parts = Inr (q, fmts, Some names, parts)"
    using query2pg_InrD [OF assms] by blast
  note n = rewrite_parts_named [OF r]
  have guard: "\<not> (m \<noteq> [] \<and> 1 < length parts \<and> type_of_item (item (parts ! 0)) \<noteq> TypeStr)"
    using n(2) by simp
  show ?thesis
  proof (intro conjI impI)
    assume "\<exists>n\<in>set names. map_of m n = None"
    then have "lookup_all m names = None"
      by (simp add: lookup_all_eq_None)
    then show "validate_and_reorder_params parts (Mapping m) (Some names) =
        Inl (ProgrammingError (ParameterMissing (sort (filter (\<lambda>n. map_of m n = None) names))))"
      using guard by (simp add: validate_and_reorder_params_def order_or_empty_def)
  next
    assume "\<forall>n\<in>set names. map_of m n \<noteq> None"
    then have "lookup_all m names = Some (map (\<lambda>n. the (map_of m n)) names)"
      by (rule lookup_all_Some)
    then show "validate_and_reorder_params parts (Mapping m) (Some names) =
              Inr (map (\<lambda>n. the (map_of m n)) names)"
      using guard by (simp add: validate_and_reorder_params_def order_or_empty_def)
  next
    show "distinct names"
      by (rule n(1))
  qed
qed

theorem mapping_params_missing_names_witness:
  "query2pg (QBytes ''select %(a)s, %(b)s'' :: (string, unit) Query) ascii =
     Inr (''select $1, $2'', [TEXT, TEXT], Some [''a'', ''b''],
          [QueryPart ''select '' (ItemStr ''a'') TEXT, QueryPart '', '' (ItemStr ''b'') TEXT,
           QueryPart [] (ItemInt 0) TEXT])
   \<and> validate_and_reorder_params
        [QueryPart ''select '' (ItemStr ''a'') TEXT, QueryPart '', '' (ItemStr ''b'') TEXT,
         QueryPart [] (ItemInt 0) TEXT]
        (Mapping [(''a'', Some (1::int))]) (Some [''a'', ''b'']) =
       Inl (ProgrammingError (ParameterMissing [''b'']))
   \<and> validate_and_reorder_params
        [QueryPart ''select '' (ItemStr ''a'') TEXT, QueryPart '', '' (ItemStr ''b'') TEXT,
         QueryPart [] (ItemInt 0) TEXT]
        (Mapping [(''b'', Some (2::int)), (''a'', Some 1)]) (Some [''a'', ''b'']) =
       Inr [Some 1, Some 2]"
  using query2pg_two_named [where 'a = unit]
    mapping_params_missing_names [OF query2pg_two_named, of "[(''a'', Some (1::int))]"]
    mapping_params_missing_names [OF query2pg_two_named, of "[(''b'', Some (2::int)), (''a'', Some 1)]"]
  by simp

text \<open>
  Claim C8. For a parsed query and parameters given as a sequence \<open>vs\<close> (a list, not text
  or bytes): when the length of \<open>vs\<close> differs from the number of parts before the closing
  one, in either direction, reconciliation raises the ProgrammingError that reports the two
  counts; when the lengths agree and the placeholders are anonymous, \<open>vs\<close> itself is
  returned.
\<close>

theorem sequence_params_count:
  assumes "query2pg query0 enc = Inr (q, fmts, ord, parts)"
  shows "(length vs \<noteq> length (butlast parts) \<longrightarrow>
            validate_and_reorder_params parts (Sequence vs) ord =
              Inl (ProgrammingError
                    (PlaceholdersButParameters (int (length (butlast parts))) (int (length vs)))))
       \<and> (length vs = length (butlast parts) \<and> type_of_item (item (hd parts)) = TypeInt \<longrightarrow>
            validate_and_reorder_params parts (Sequence vs) ord = Inr vs)"
proof -
  have r: "rewrite_parts parts = Inr (q, fmts, ord, parts)"
    using query2pg_InrD [OF assms] by blast
  have ne: "parts \<noteq> []"
    using rewrite_parts_InrD [OF r] by simp
  then have len: "int (length parts) - 1 = int (length (butlast parts))"
    by (cases parts) simp_all
  show ?thesis
    using ne len by (cases parts) (auto simp: validate_and_reorder_params_def)
qed

theorem sequence_params_count_witness:
  "validate_and_reorder_params
     [QueryPart ''select '' (ItemInt 0) TEXT, QueryPart '', '' (ItemInt 1) TEXT,
      QueryPart [] (ItemInt 0) TEXT]
     (Sequence [Some (1::int)]) (None :: string list option) =
     Inl (ProgrammingError (PlaceholdersButParameters 2 1))
   \<and> validate_and_reorder_params
     [QueryPart ''select '' (ItemInt 0) TEXT, QueryPart '', '' (ItemInt 1) TEXT,
      QueryPart [] (ItemInt 0) TEXT]
     (Sequence [Some (1::int), Some 2, Some 3]) (None :: string list option) =
     Inl (ProgrammingError (PlaceholdersButParameters 2 3))
   \<and> validate_and_reorder_params
     [QueryPart ''select '' (ItemInt 0) TEXT, QueryPart '', '' (ItemInt 1) TEXT,
      QueryPart [] (ItemInt 0) TEXT]
     (Sequence [Some (1::int), None]) (None :: string list option) =
     Inr [Some 1, None]"
  using sequence_params_count [OF query2pg_two_anonymous, of "[Some (1::int)]"]
    sequence_params_count [OF query2pg_two_anonymous, of "[Some (1::int), Some 2, Some 3]"]
    sequence_params_count [OF query2pg_two_anonymous, of "[Some (1::int), None]"]
  by simp

text \<open>
  Claim C10. For a parsed query without placeholders (its only part is the closing one), a
  non-empty mapping is reconciled to the empty parameter list, the check of the kind of
  placeholders being skipped, while a non-empty sequence raises the ProgrammingError that
  reports zero placeholders and the length of the sequence.
\<close>

theorem zero_placeholders_mapping_sequence:
  assumes "query2pg query0 enc = Inr (q, fmts, ord, parts)" and "length parts = 1"
  shows "(m \<noteq> [] \<longrightarrow> validate_and_reorder_params parts (Mapping m) ord = Inr [])
       \<and> (vs \<noteq> [] \<longrightarrow>
            validate_and_reorder_params parts (Sequence vs) ord =
              Inl (ProgrammingError (PlaceholdersButParameters 0 (int (length vs)))))"
proof -
  have r: "rewrite_parts parts = Inr (q, fmts, ord, parts)"
    using query2pg_InrD [OF assms(1)] by blast
  from assms(2) obtain p where p: "parts = [p]"
    by (cases parts) simp_all
  from r p have "order_or_empty ord = []"
    by (auto simp: rewrite_parts_def order_or_empty_def split: item.splits)
  then show ?thesis
    using p by (simp add: validate_and_reorder_params_def)
qed

theorem zero_placeholders_mapping_sequence_witness:
  "length [QueryPart ''select 1'' (ItemInt 0) TEXT :: string QueryPart] = 1
   \<and> validate_and_reorder_params [QueryPart ''select 1'' (ItemInt 0) TEXT]
        (Mapping [(''a'', Some (1::int))]) (None :: string list option) = Inr []
   \<and> validate_and_reorder_params [QueryPart ''select 1'' (ItemInt 0) TEXT]
        (Sequence [Some (1::int)]) (None :: string list option) =
       Inl (ProgrammingError (PlaceholdersButParameters 0 1))"
  using zero_placeholders_mapping_sequence
          [OF query2pg_no_placeholder, of "[(''a'', Some (1::int))]" "[Some (1::int)]"]
  by simp

section \<open>The session\<close>

text \<open>
  Claim C4. A \<^verbatim>\<open>dump\<close> without parameters sets \<^verbatim>\<open>params\<close> and \<^verbatim>\<open>types\<close> to \<open>None\<close> and nothing
  else. A \<^verbatim>\<open>dump\<close> with parameters on a session whose \<^verbatim>\<open>types\<close> are set leaves them as they
  are, whatever its outcome. A \<^verbatim>\<open>dump\<close> with parameters that reconcile to no more values than
  there are formats returns normally: it sets \<^verbatim>\<open>params\<close> to the serialized values, and it sets
  \<^verbatim>\<open>types\<close> only when they were not set.
\<close>

theorem types_set_by_first_dump_only:
  "dump tx None self = (None, self\<lparr>params := None, types := None\<rparr>)
   \<and> (types self \<noteq> None \<longrightarrow> types (snd (dump tx (Some vars) self)) = types self)
   \<and> (priv_parts self = Some parts
        \<and> validate_and_reorder_params parts vars (priv_order self) = Inr ps
        \<and> formats self = Some fmts \<and> length ps \<le> length fmts \<longrightarrow>
      dump tx (Some vars) self =
        (None, if types self = None
               then self\<lparr>params := Some (dumped tx fmts ps),
                         types := Some (dumped_oids tx fmts ps)\<rparr>
               else self\<lparr>params := Some (dumped tx fmts ps)\<rparr>))"
proof (intro conjI impI)
  show "dump tx None self = (None, self\<lparr>params := None, types := None\<rparr>)"
    by (simp add: dump_def)
next
  assume "types self \<noteq> None"
  then show "types (snd (dump tx (Some vars) self)) = types self"
    by (rule dump_keeps_types)
next
  assume "priv_parts self = Some parts
        \<and> validate_and_reorder_params parts vars (priv_order self) = Inr ps
        \<and> formats self = Some fmts \<and> length ps \<le> length fmts"
  then show "dump tx (Some vars) self =
        (None, if types self = None
               then self\<lparr>params := Some (dumped tx fmts ps),
                         types := Some (dumped_oids tx fmts ps)\<rparr>
               else self\<lparr>params := Some (dumped tx fmts ps)\<rparr>)"
    using dump_ok by blast
qed

theorem types_set_by_first_dump_only_witness:
  "types prepared \<noteq> None
   \<and> types (snd (dump int_transformer (Some (Sequence [Some 2])) prepared)) = Some [23]
   \<and> dump int_transformer (Some (Sequence [Some 2])) prepared
       = (None, prepared\<lparr>params := Some [Some ''2'']\<rparr>)
   \<and> dump int_transformer None prepared = (None, prepared\<lparr>params := None, types := None\<rparr>)
   \<and> dump int_transformer (Some (Sequence [Some 2])) (prepared\<lparr>params := None, types := None\<rparr>)
       = (None, prepared\<lparr>params := Some [Some ''2''], types := Some [23]\<rparr>)"
proof -
  let ?parts = "[QueryPart ''select '' (ItemInt 0) TEXT, QueryPart [] (ItemInt 0) TEXT
                   :: string QueryPart]"
  let ?vars = "Sequence [Some (2::int)] :: (string, int) Params"
  let ?cleared = "prepared\<lparr>params := None, types := None\<rparr>"
  have t: "types prepared \<noteq> None"
    by (simp add: prepared_def)
  note a = types_set_by_first_dump_only [of int_transformer prepared ?vars ?parts "[Some 2]" "[TEXT]"]
  note b = types_set_by_first_dump_only [of int_transformer ?cleared ?vars ?parts "[Some 2]" "[TEXT]"]
  have pre_a: "priv_parts prepared = Some ?parts
        \<and> validate_and_reorder_params ?parts ?vars (priv_order prepared) = Inr [Some 2]
        \<and> formats prepared = Some [TEXT] \<and> length [Some (2::int)] \<le> length [TEXT]"
    using validate_prepared by (simp add: prepared_def)
  have pre_b: "priv_parts ?cleared = Some ?parts
        \<and> validate_and_reorder_params ?parts ?vars (priv_order ?cleared) = Inr [Some 2]
        \<and> formats ?cleared = Some [TEXT] \<and> length [Some (2::int)] \<le> length [TEXT]"
    using validate_prepared by (simp add: prepared_def)
  have 1: "types (snd (dump int_transformer (Some ?vars) prepared)) = Some [23]"
    using a t by (simp add: prepared_def)
  have 2: "dump int_transformer (Some ?vars) prepared = (None, prepared\<lparr>params := Some [Some ''2'']\<rparr>)"
    using a pre_a t
    by (simp add: dumped_def int_transformer_def format_d_1)
  have 3: "dump int_transformer None prepared = (None, ?cleared)"
    using a by simp
  have 4: "dump int_transformer (Some ?vars) ?cleared
       = (None, prepared\<lparr>params := Some [Some ''2''], types := Some [23]\<rparr>)"
    using b pre_b
    by (simp add: dumped_def dumped_oids_def int_transformer_def format_d_1)
  show ?thesis
    using t 1 2 3 4 by blast
qed

text \<open>
  Claim C7, as the code has it. A \<^verbatim>\<open>convert\<close> without parameters, on bytes or on text that the
  encoding accepts (a composable being rendered to text first), returns normally; the query of
  the session becomes the query as bytes, unchanged by any rewriting; the formats, the name
  order, the parameters and the types are cleared; the parts are left as they were.
\<close>

theorem convert_without_params:
  "(encode (encoding tx) s = Some b \<longrightarrow>
      convert tx (QStr s) None self =
        (None, self\<lparr>query := b, formats := None, priv_order := None,
                    params := None, types := None\<rparr>))
   \<and> (encode (encoding tx) (as_string c tx) = Some b \<longrightarrow>
      convert tx (QComposable c) None self =
        (None, self\<lparr>query := b, formats := None, priv_order := None,
                    params := None, types := None\<rparr>))
   \<and> convert tx (QBytes b) None self =
        (None, self\<lparr>query := b, formats := None, priv_order := None,
                    params := None, types := None\<rparr>)
   \<and> priv_parts (snd (convert tx query0 None self)) = priv_parts self"
proof (intro conjI impI)
  assume "encode (encoding tx) s = Some b"
  then show "convert tx (QStr s) None self =
        (None, self\<lparr>query := b, formats := None, priv_order := None,
                    params := None, types := None\<rparr>)"
    by (simp add: convert_def dump_def)
next
  assume "encode (encoding tx) (as_string c tx) = Some b"
  then show "convert tx (QComposable c) None self =
        (None, self\<lparr>query := b, formats := None, priv_order := None,
                    params := None, types := None\<rparr>)"
    by (simp add: convert_def dump_def)
next
  show "convert tx (QBytes b) None self =
        (None, self\<lparr>query := b, formats := None, priv_order := None,
                    params := None, types := None\<rparr>)"
    by (simp add: convert_def dump_def)
next
  show "priv_parts (snd (convert tx query0 None self)) = priv_parts self"
    by (cases query0) (simp_all add: convert_def dump_def split: option.splits)
qed

theorem convert_without_params_witness:
  "encode (encoding int_transformer) ''select 100%%'' = Some ''select 100%%''
   \<and> convert int_transformer (QStr ''select 100%%'') None prepared =
        (None, prepared\<lparr>query := ''select 100%%'', formats := None, priv_order := None,
                    params := None, types := None\<rparr>)
   \<and> priv_parts (snd (convert int_transformer (QStr ''select 100%%'') None prepared))
        = priv_parts prepared"
proof -
  have e: "encode (encoding int_transformer) ''select 100%%'' = Some ''select 100%%''"
    by (simp add: int_transformer_def ascii_def)
  note a = convert_without_params [of int_transformer "''select 100%%''" "''select 100%%''"
      prepared _ "QStr ''select 100%%''"]
  show ?thesis
    using e a by blast
qed

text \<open>
  Claim C7 as stated has the parts cleared as well. A session that has converted
  \<^verbatim>\<open>select %s\<close> with one parameter and then converts \<^verbatim>\<open>select 1\<close> without parameters still
  has the two parts of the first query.
\<close>

theorem convert_without_params_keeps_parts:
  "convert int_transformer (QBytes ''select %s'') (Some (Sequence [Some 1])) init = (None, prepared)
   \<and> priv_parts (snd (convert int_transformer (QBytes ''select 1'') None prepared))
       = Some [QueryPart ''select '' (ItemInt 0) TEXT, QueryPart [] (ItemInt 0) TEXT]
   \<and> priv_parts (snd (convert int_transformer (QBytes ''select 1'') None prepared)) \<noteq> None"
proof -
  have "priv_parts (snd (convert int_transformer (QBytes ''select 1'') None prepared))
       = Some [QueryPart ''select '' (ItemInt 0) TEXT, QueryPart [] (ItemInt 0) TEXT]"
    by (simp add: convert_def dump_def prepared_def)
  with convert_prepared show ?thesis
    by simp
qed

end
